theory Spec2Isabelle
  imports Complex_Main "HOL-Library.Multiset"
begin

section \<open>Data model\<close>

text \<open>
  The quiz page keeps all of its data in component variables. A question is the object
  type \<^verbatim>\<open>Question\<close>; the optional properties \<^verbatim>\<open>dummyAnswers\<close> and
  \<^verbatim>\<open>__index\<close> are options (\<open>None\<close> is \<^verbatim>\<open>undefined\<close>). The property
  \<^verbatim>\<open>__index\<close> is written \<open>qindex\<close>, since an Isabelle name cannot begin with an
  underscore. Values are taken at their declared types, so the run-time guards
  \<^verbatim>\<open>typeof t === "string"\<close> and \<^verbatim>\<open>!q\<close> always pass and are not repeated.
\<close>

record Question =
  domain :: string
  lesson :: string
  question :: string
  correctAnswer :: string
  dummyAnswers :: "string list option"
  qindex :: "nat option"

text \<open>The type \<^verbatim>\<open>Option\<close> of the page; its property \<^verbatim>\<open>text\<close> is \<open>otext\<close>.\<close>

record QuizOption =
  otext :: string
  correct :: bool

section \<open>The random source\<close>

text \<open>
  \<^verbatim>\<open>Math.random()\<close> is the only source of randomness. The sequence of numbers it is
  going to return is a parameter of the model: \<open>g k\<close> is the value of the \<open>k\<close>-th call
  from now. A call returns \<open>g 0\<close> and leaves the rest of the sequence. The numbers are
  exact rationals; \<^verbatim>\<open>Math.random()\<close> promises a value in \<open>[0, 1)\<close>, which is
  \<open>rng_ok\<close>. (The rounding of the floating-point product can change which index a
  given number selects, never the range \<open>0..i\<close> the index lies in, and every index of
  the range is selected by some rational number.)
\<close>

type_synonym rng = "nat \<Rightarrow> rat"

definition Math_random :: "rng \<Rightarrow> rat \<times> rng" where
  "Math_random g = (g 0, \<lambda>k. g (Suc k))"

definition rng_ok :: "rng \<Rightarrow> bool" where
  "rng_ok g \<longleftrightarrow> (\<forall>k. 0 \<le> g k \<and> g k < 1)"

section \<open>shuffleArray\<close>

text \<open>
  \<^verbatim>\<open>[a[i], a[j]] = [a[j], a[i]]\<close>: both reads happen before the two writes.
\<close>

definition swap :: "'a list \<Rightarrow> nat \<Rightarrow> nat \<Rightarrow> 'a list" where
  "swap a i j = a[i := a ! j, j := a ! i]"

text \<open>
  \<^verbatim>\<open>for (let i = a.length - 1; i > 0; i--)\<close> with
  \<^verbatim>\<open>j = Math.floor(Math.random() * (i + 1))\<close>. The first argument is the loop
  variable \<open>i\<close>; the loop body runs for \<open>i = Suc n\<close> and stops at \<open>0\<close>.
\<close>

fun shuffle_loop :: "nat \<Rightarrow> 'a list \<Rightarrow> rng \<Rightarrow> 'a list \<times> rng" where
  "shuffle_loop 0 a g = (a, g)"
| "shuffle_loop (Suc n) a g =
     (let i = Suc n;
          (r, g') = Math_random g;
          j = nat \<lfloor>r * of_nat (i + 1)\<rfloor>
      in shuffle_loop n (swap a i j) g')"

text \<open>
  The copy \<^verbatim>\<open>[...arr]\<close> is the list itself. For the empty array
  \<^verbatim>\<open>a.length - 1\<close> is \<open>-1\<close> and the loop does not run; neither does it from \<open>0\<close>.
\<close>

definition shuffleArray :: "'a list \<Rightarrow> rng \<Rightarrow> 'a list \<times> rng" where
  "shuffleArray arr g = shuffle_loop (length arr - 1) arr g"

section \<open>The option builder\<close>

text \<open>
  \<^verbatim>\<open>getGlobalDistractorPool\<close>: the correct answers of all questions whose position in
  \<^verbatim>\<open>allQuestions\<close> differs from \<^verbatim>\<open>excludeIndex\<close>, in order; nothing when
  \<^verbatim>\<open>excludeIndex\<close> is undefined.
\<close>

definition getGlobalDistractorPool :: "Question list \<Rightarrow> nat option \<Rightarrow> string list" where
  "getGlobalDistractorPool allQ excludeIndex =
     (case excludeIndex of
        None \<Rightarrow> []
      | Some e \<Rightarrow> map (\<lambda>(idx, q). correctAnswer q)
                   (filter (\<lambda>(idx, q). idx \<noteq> e) (enumerate 0 allQ)))"

text \<open>The body of \<^verbatim>\<open>perQ.forEach\<close>, on the pair of \<^verbatim>\<open>options\<close> and \<^verbatim>\<open>seen\<close>.\<close>

definition add_dummy ::
  "string \<Rightarrow> QuizOption list \<times> string set \<Rightarrow> QuizOption list \<times> string set" where
  "add_dummy t acc =
     (case acc of (options, seen) \<Rightarrow>
        if t \<notin> seen
        then (options @ [\<lparr>otext = t, correct = False\<rparr>], insert t seen)
        else (options, seen))"

text \<open>
  The top-up loop \<^verbatim>\<open>for (let i = 0; i < needed && i < pool.length; i++)\<close>.
\<close>

function topup_loop ::
  "nat \<Rightarrow> nat \<Rightarrow> string list \<Rightarrow> QuizOption list \<times> string set
     \<Rightarrow> QuizOption list \<times> string set" where
  "topup_loop i needed pool acc =
     (if i < needed \<and> i < length pool
      then topup_loop (i + 1) needed pool
             (fst acc @ [\<lparr>otext = pool ! i, correct = False\<rparr>], insert (pool ! i) (snd acc))
      else acc)"
  by pat_completeness auto
termination
  by (relation "measure (\<lambda>(i, needed, pool, acc). length pool - i)") auto

definition desiredOptionCount :: int where
  "desiredOptionCount = 4"

definition buildOptionsForQuestion ::
  "Question list \<Rightarrow> Question \<Rightarrow> rng \<Rightarrow> QuizOption list \<times> rng" where
  "buildOptionsForQuestion allQ q g =
     (let correctText = correctAnswer q;
          perQ = (case dummyAnswers q of Some ds \<Rightarrow> ds | None \<Rightarrow> []);
          (options, seen) =
             fold add_dummy perQ ([\<lparr>otext = correctText, correct = True\<rparr>], {correctText});
          needed = nat (max 0 (desiredOptionCount - int (length options)))
      in if needed > 0
         then (let (pool, g1) =
                     shuffleArray
                       (filter (\<lambda>t. t \<notin> seen) (getGlobalDistractorPool allQ (qindex q))) g;
                   (options', seen') = topup_loop 0 needed pool (options, seen)
               in shuffleArray options' g1)
         else shuffleArray options g)"

text \<open>
  The quantities the option count is described with: the distinct dummy answers that
  differ from the correct answer; the other questions' correct answers that are
  neither the correct answer nor a dummy answer of the question, in store order (the
  pool after its filter, one entry for each other question); and the distinct texts
  among them.
\<close>

definition unique_dummies :: "Question \<Rightarrow> string set" where
  "unique_dummies q =
     set (case dummyAnswers q of Some ds \<Rightarrow> ds | None \<Rightarrow> []) - {correctAnswer q}"

definition available_distractors :: "Question list \<Rightarrow> Question \<Rightarrow> string list" where
  "available_distractors allQ q =
     filter (\<lambda>t. t \<noteq> correctAnswer q \<and> t \<notin> unique_dummies q)
       (getGlobalDistractorPool allQ (qindex q))"

definition unique_distractors :: "Question list \<Rightarrow> Question \<Rightarrow> string set" where
  "unique_distractors allQ q = set (available_distractors allQ q)"

section \<open>The session controller\<close>

text \<open>
  The question objects are created once, when the file is loaded, and never copied or
  changed afterwards: \<^verbatim>\<open>allQuestions\<close> is the store, and a reference to the object
  \<^verbatim>\<open>allQuestions[n]\<close> is \<open>Ref n\<close>. Two references are identical exactly when they
  are equal. Reading an array past its end gives \<^verbatim>\<open>undefined\<close>, which an array can
  also hold.
\<close>

datatype qref = Ref nat | Undefined

datatype Status = Idle | Correct | Incorrect

text \<open>
  The component variables. The last two fields are the environment of the page: the
  browser's list of active timeouts as pairs of handle and delay in milliseconds (every
  timeout of this page runs \<^verbatim>\<open>nextQuestion(true)\<close>), and the random source.
  \<^verbatim>\<open>selectedDomains\<close> is a \<^verbatim>\<open>Set\<close>; the array \<^verbatim>\<open>activeDomains\<close> made from
  it is only asked for emptiness and membership.
\<close>

record state =
  loading :: bool
  error :: "string option"
  allQuestions :: "Question list"
  domains :: "string list"
  selectedDomains :: "string set"
  minQuestions :: int
  sessionQuestions :: "qref list"
  sessionStarted :: bool
  currentIndex :: nat
  currentOptions :: "QuizOption list"
  status :: Status
  statusMessage :: string
  autoAdvanceTimeout :: "nat option"
  timers :: "(nat \<times> nat) list"
  rand :: rng

text \<open>
  A handler either returns or throws; in both cases the assignments it has made stay in
  the component, so both carry the state reached.
\<close>

datatype js_error = TypeError

datatype outcome = Returned state | Threw js_error state

fun final_state :: "outcome \<Rightarrow> state" where
  "final_state (Returned s) = s"
| "final_state (Threw e s) = s"

fun returned :: "outcome \<Rightarrow> bool" where
  "returned (Returned s) = True"
| "returned (Threw e s) = False"

text \<open>\<^verbatim>\<open>sessionQuestions[i]\<close> and the object a reference points to.\<close>

definition array_get :: "qref list \<Rightarrow> nat \<Rightarrow> qref" where
  "array_get xs i = (if i < length xs then xs ! i else Undefined)"

definition question_at :: "Question list \<Rightarrow> qref \<Rightarrow> Question option" where
  "question_at allQ r =
     (case r of
        Undefined \<Rightarrow> None
      | Ref n \<Rightarrow> if n < length allQ then Some (allQ ! n) else None)"

text \<open>\<^verbatim>\<open>q.domain || "General"\<close>: the empty string is falsy.\<close>

definition domain_or_general :: "Question \<Rightarrow> string" where
  "domain_or_general q = (if domain q = [] then ''General'' else domain q)"

text \<open>
  \<^verbatim>\<open>prepareCurrentQuestion\<close>. Reading \<^verbatim>\<open>q.correctAnswer\<close> in the option builder
  throws a \<^verbatim>\<open>TypeError\<close> when \<^verbatim>\<open>q\<close> is undefined, before anything is assigned. (A
  reference outside the store does not exist in the program; the model treats it like
  \<^verbatim>\<open>undefined\<close>.)
\<close>

definition prepareCurrentQuestion :: "state \<Rightarrow> outcome" where
  "prepareCurrentQuestion s =
     (let q = array_get (sessionQuestions s) (currentIndex s)
      in case question_at (allQuestions s) q of
           None \<Rightarrow> Threw TypeError s
         | Some qu \<Rightarrow>
             (let (opts, g') = buildOptionsForQuestion (allQuestions s) qu (rand s)
              in Returned (s\<lparr>currentOptions := opts, status := Idle, statusMessage := [],
                             rand := g'\<rparr>)))"

subsection \<open>The auto-advance timer\<close>

text \<open>
  \<^verbatim>\<open>window.setTimeout\<close> returns a handle greater than zero that no active timeout
  has, and adds the timeout to the list; \<^verbatim>\<open>clearTimeout\<close> removes the timeout with the
  given handle, if there is one.
\<close>

definition fresh_handle :: "(nat \<times> nat) list \<Rightarrow> nat" where
  "fresh_handle ts = Suc (fold max (map fst ts) 0)"

definition setTimeout :: "nat \<Rightarrow> (nat \<times> nat) list \<Rightarrow> nat \<times> (nat \<times> nat) list" where
  "setTimeout delay ts = (fresh_handle ts, ts @ [(fresh_handle ts, delay)])"

definition clearTimeout :: "nat \<Rightarrow> (nat \<times> nat) list \<Rightarrow> (nat \<times> nat) list" where
  "clearTimeout h ts = filter (\<lambda>(h', d). h' \<noteq> h) ts"

definition clearAutoAdvanceTimer :: "state \<Rightarrow> state" where
  "clearAutoAdvanceTimer s =
     (case autoAdvanceTimeout s of
        None \<Rightarrow> s
      | Some h \<Rightarrow> s\<lparr>timers := clearTimeout h (timers s), autoAdvanceTimeout := None\<rparr>)"

definition scheduleAutoAdvance :: "state \<Rightarrow> state" where
  "scheduleAutoAdvance s =
     (let s1 = clearAutoAdvanceTimer s;
          (h, ts) = setTimeout 1000 (timers s1)
      in s1\<lparr>timers := ts, autoAdvanceTimeout := Some h\<rparr>)"

subsection \<open>startSession\<close>

text \<open>
  \<^verbatim>\<open>candidates.slice(0, end)\<close> for an integer \<^verbatim>\<open>end\<close>: a negative end counts from
  the end of the array.
\<close>

definition js_slice0 :: "'a list \<Rightarrow> int \<Rightarrow> 'a list" where
  "js_slice0 xs e =
     (let len = int (length xs);
          final = (if e < 0 then max (len + e) 0 else min e len)
      in take (nat final) xs)"

text \<open>The references to the questions of the store whose domain is among the given ones.\<close>

definition filter_candidates :: "Question list \<Rightarrow> string set \<Rightarrow> qref list" where
  "filter_candidates allQ activeDomains =
     map Ref (filter (\<lambda>n. domain_or_general (allQ ! n) \<in> activeDomains) [0..<length allQ])"

definition activeDomains_of :: "state \<Rightarrow> string set" where
  "activeDomains_of s =
     (if selectedDomains s = {} then set (domains s) else selectedDomains s)"

text \<open>The domain-filtered candidates of a state, as \<^verbatim>\<open>startSession\<close> computes them.\<close>

definition candidates_of :: "state \<Rightarrow> qref list" where
  "candidates_of s = filter_candidates (allQuestions s) (activeDomains_of s)"

definition startSession :: "state \<Rightarrow> outcome" where
  "startSession s0 =
     (if allQuestions s0 = [] then Returned s0
      else
        (let s1 = clearAutoAdvanceTimer s0;
             activeDomains = activeDomains_of s1;
             s2 = (if selectedDomains s1 = {} then s1\<lparr>selectedDomains := set (domains s1)\<rparr>
                   else s1);
             candidates = filter_candidates (allQuestions s2) activeDomains
         in if candidates = []
            then Returned (s2\<lparr>error := Some ''No questions found for the selected domains.''\<rparr>)
            else
              (let (shuffled, g') = shuffleArray candidates (rand s2);
                   trimmed = (if int (length shuffled) > minQuestions s2
                              then js_slice0 shuffled (minQuestions s2) else shuffled)
               in prepareCurrentQuestion
                    (s2\<lparr>sessionQuestions := trimmed, currentIndex := 0,
                        sessionStarted := True, rand := g'\<rparr>))))"

subsection \<open>handleAnswerClick\<close>

text \<open>
  No statement of \<^verbatim>\<open>handleAnswerClick\<close> can throw, so it returns the state.
  \<^verbatim>\<open>sessionQuestions.slice(currentIndex + 1)\<close> is \<open>drop\<close>, and \<^verbatim>\<open>includes\<close> on
  object references is membership.
\<close>

definition handleAnswerClick :: "QuizOption \<Rightarrow> state \<Rightarrow> state" where
  "handleAnswerClick option s0 =
     (if status s0 \<noteq> Idle then s0
      else
        (let s1 = clearAutoAdvanceTimer s0
         in if correct option
            then scheduleAutoAdvance (s1\<lparr>status := Correct, statusMessage := ''Correct!''\<rparr>)
            else
              (let s2 = s1\<lparr>status := Incorrect, statusMessage := ''Incorrect.''\<rparr>;
                   currentQuestionRef = array_get (sessionQuestions s2) (currentIndex s2);
                   remaining = drop (currentIndex s2 + 1) (sessionQuestions s2);
                   alreadyQueued = (currentQuestionRef \<in> set remaining)
               in if \<not> alreadyQueued
                  then s2\<lparr>sessionQuestions := sessionQuestions s2 @ [currentQuestionRef]\<rparr>
                  else s2)))"

text \<open>The handler of the page without timer and re-queue (\<^verbatim>\<open>routes/+page.svelte\<close>).\<close>

definition handleAnswerClick_page :: "QuizOption \<Rightarrow> state \<Rightarrow> state" where
  "handleAnswerClick_page option s0 =
     (if status s0 \<noteq> Idle then s0
      else if correct option
      then s0\<lparr>status := Correct, statusMessage := ''Correct!''\<rparr>
      else s0\<lparr>status := Incorrect, statusMessage := ''Incorrect.''\<rparr>)"

subsection \<open>nextQuestion\<close>

text \<open>The flag \<^verbatim>\<open>auto\<close> is not used by the body.\<close>

definition nextQuestion :: "bool \<Rightarrow> state \<Rightarrow> outcome" where
  "nextQuestion auto s0 =
     (if \<not> sessionStarted s0 then Returned s0
      else
        (let s1 = clearAutoAdvanceTimer s0
         in if int (currentIndex s1) < int (length (sessionQuestions s1)) - 1
            then prepareCurrentQuestion (s1\<lparr>currentIndex := currentIndex s1 + 1\<rparr>)
            else Returned (s1\<lparr>status := Idle, statusMessage := [], sessionStarted := False\<rparr>)))"

subsection \<open>Events\<close>

text \<open>
  A timeout that is still active may fire: the browser removes it from its list and
  runs the callback \<^verbatim>\<open>nextQuestion(true)\<close>. A timeout that is not active cannot fire.
\<close>

definition timer_fire :: "nat \<Rightarrow> state \<Rightarrow> outcome option" where
  "timer_fire h s =
     (if h \<in> fst ` set (timers s)
      then Some (nextQuestion True (s\<lparr>timers := clearTimeout h (timers s)\<rparr>))
      else None)"

definition toggleDomain :: "string \<Rightarrow> state \<Rightarrow> state" where
  "toggleDomain d s =
     (if d \<in> selectedDomains s then s\<lparr>selectedDomains := selectedDomains s - {d}\<rparr>
      else s\<lparr>selectedDomains := insert d (selectedDomains s)\<rparr>)"

definition onDestroy :: "state \<Rightarrow> state" where
  "onDestroy s = clearAutoAdvanceTimer s"

text \<open>
  Everything that can happen to the page after loading: the clicks, the number typed
  into the session-length field (bound to \<^verbatim>\<open>minQuestions\<close>; the attributes
  \<^verbatim>\<open>min="5" max="100"\<close> of the field do not restrict what is typed), a timeout
  firing, and the component going away. A timeout that is not active leaves the state
  as it is.
\<close>

datatype event =
    StartClick
  | AnswerClick QuizOption
  | NextClick
  | TimerFires nat
  | ToggleClick string
  | MinInput int
  | Destroy

fun step_outcome :: "event \<Rightarrow> state \<Rightarrow> outcome" where
  "step_outcome StartClick s = startSession s"
| "step_outcome (AnswerClick opt) s = Returned (handleAnswerClick opt s)"
| "step_outcome NextClick s = nextQuestion False s"
| "step_outcome (TimerFires h) s =
     (case timer_fire h s of None \<Rightarrow> Returned s | Some out \<Rightarrow> out)"
| "step_outcome (ToggleClick d) s = Returned (toggleDomain d s)"
| "step_outcome (MinInput m) s = Returned (s\<lparr>minQuestions := m\<rparr>)"
| "step_outcome Destroy s = Returned (onDestroy s)"

definition step :: "event \<Rightarrow> state \<Rightarrow> state" where
  "step e s = final_state (step_outcome e s)"

fun is_answer :: "event \<Rightarrow> bool" where
  "is_answer (AnswerClick opt) \<longleftrightarrow> True"
| "is_answer e \<longleftrightarrow> False"

text \<open>An advance: the click on the next-question button, or the timeout firing.\<close>

fun is_advance :: "event \<Rightarrow> bool" where
  "is_advance NextClick \<longleftrightarrow> True"
| "is_advance (TimerFires h) \<longleftrightarrow> True"
| "is_advance e \<longleftrightarrow> False"

definition run :: "event list \<Rightarrow> state \<Rightarrow> state" where
  "run es s = fold step es s"

text \<open>No handler of the sequence throws.\<close>

fun all_return :: "event list \<Rightarrow> state \<Rightarrow> bool" where
  "all_return [] s \<longleftrightarrow> True"
| "all_return (e # es) s \<longleftrightarrow> returned (step_outcome e s) \<and> all_return es (step e s)"

subsection \<open>What the page shows\<close>

text \<open>
  The top level of the template: \<^verbatim>\<open>{#if loading}\<close> the spinner,
  \<^verbatim>\<open>{:else if error}\<close> only the alert with the message, \<^verbatim>\<open>{:else}\<close> the page with
  the session set-up (domains, length, start button) and the question card. The empty
  string is falsy.
\<close>

datatype view = Spinner | ErrorAlert string | QuizPage

definition render :: "state \<Rightarrow> view" where
  "render s =
     (if loading s then Spinner
      else case error s of
             None \<Rightarrow> QuizPage
           | Some e \<Rightarrow> if e \<noteq> [] then ErrorAlert e else QuizPage)"

subsection \<open>Invariants of a session\<close>

text \<open>The cursor is inside the queue while a session is active.\<close>

definition position_inv :: "state \<Rightarrow> bool" where
  "position_inv s \<longleftrightarrow>
     (sessionStarted s \<longrightarrow> currentIndex s < length (sessionQuestions s))"

text \<open>Every entry of the queue is a reference to a question of the store.\<close>

fun valid_ref :: "Question list \<Rightarrow> qref \<Rightarrow> bool" where
  "valid_ref allQ (Ref n) \<longleftrightarrow> n < length allQ"
| "valid_ref allQ Undefined \<longleftrightarrow> False"

definition refs_ok :: "state \<Rightarrow> bool" where
  "refs_ok s \<longleftrightarrow> list_all (valid_ref (allQuestions s)) (sessionQuestions s)"

text \<open>No reference occurs twice after the cursor.\<close>

definition pending_distinct :: "state \<Rightarrow> bool" where
  "pending_distinct s \<longleftrightarrow> distinct (drop (Suc (currentIndex s)) (sessionQuestions s))"

text \<open>
  A well-formed queue: the cursor inside it, its entries references into the store,
  none of them pending twice. An active session is a started one with such a queue.
\<close>

definition session_wf :: "state \<Rightarrow> bool" where
  "session_wf s \<longleftrightarrow>
     currentIndex s < length (sessionQuestions s) \<and> refs_ok s \<and> pending_distinct s"

definition active_session :: "state \<Rightarrow> bool" where
  "active_session s \<longleftrightarrow> sessionStarted s \<and> session_wf s"

text \<open>
  The only active timeout, if there is one, is the one whose handle is in
  \<^verbatim>\<open>autoAdvanceTimeout\<close>, with the delay of one second.
\<close>

definition timer_inv :: "state \<Rightarrow> bool" where
  "timer_inv s \<longleftrightarrow>
     (timers s = [] \<or>
      (case autoAdvanceTimeout s of None \<Rightarrow> False | Some h \<Rightarrow> timers s = [(h, 1000)]))"

subsection \<open>The states the page can reach\<close>

text \<open>
  The page once the questions are loaded: no session yet, nothing scheduled. The
  store, the domains and the selection are whatever the file gave.
\<close>

definition initial :: "state \<Rightarrow> bool" where
  "initial s \<longleftrightarrow>
     \<not> loading s \<and> sessionQuestions s = [] \<and> \<not> sessionStarted s \<and> currentIndex s = 0
       \<and> currentOptions s = [] \<and> status s = Idle \<and> statusMessage s = []
       \<and> autoAdvanceTimeout s = None \<and> timers s = [] \<and> rng_ok (rand s)"

text \<open>
  What the template lets happen. The set-up card is part of the page proper; the
  question card with the option buttons and the next-question button is rendered under
  \<^verbatim>\<open>{#if sessionStarted && currentQuestion}\<close>, and the option buttons are disabled
  unless the status is idle.
\<close>

definition question_shown :: "state \<Rightarrow> bool" where
  "question_shown s \<longleftrightarrow>
     render s = QuizPage \<and> sessionStarted s
       \<and> array_get (sessionQuestions s) (currentIndex s) \<noteq> Undefined"

fun enabled :: "event \<Rightarrow> state \<Rightarrow> bool" where
  "enabled StartClick s \<longleftrightarrow> render s = QuizPage"
| "enabled (AnswerClick opt) s \<longleftrightarrow>
     question_shown s \<and> status s = Idle \<and> opt \<in> set (currentOptions s)"
| "enabled NextClick s \<longleftrightarrow> question_shown s"
| "enabled (TimerFires h) s \<longleftrightarrow> h \<in> fst ` set (timers s)"
| "enabled (ToggleClick d) s \<longleftrightarrow> render s = QuizPage \<and> d \<in> set (domains s)"
| "enabled (MinInput m) s \<longleftrightarrow> render s = QuizPage"
| "enabled Destroy s \<longleftrightarrow> True"

inductive reachable :: "state \<Rightarrow> bool" where
  start: "initial s \<Longrightarrow> reachable s"
| event: "reachable s \<Longrightarrow> enabled e s \<Longrightarrow> reachable (step e s)"

text \<open>The facts kept by every event the template lets happen.\<close>

definition page_inv :: "state \<Rightarrow> bool" where
  "page_inv s \<longleftrightarrow> refs_ok s \<and> pending_distinct s \<and> rng_ok (rand s) \<and> timer_inv s"

section \<open>Example data\<close>

definition rng_half :: rng where
  "rng_half = (\<lambda>k. 1 / 2)"

text \<open>Three questions with distinct correct answers and no dummy answers.\<close>

definition bank3 :: "Question list" where
  "bank3 =
     [\<lparr>domain = ''Geo'', lesson = '''', question = ''Capital of France?'',
        correctAnswer = ''Paris'', dummyAnswers = None, qindex = Some 0\<rparr>,
      \<lparr>domain = ''Geo'', lesson = '''', question = ''Capital of Germany?'',
        correctAnswer = ''Berlin'', dummyAnswers = None, qindex = Some 1\<rparr>,
      \<lparr>domain = '''', lesson = '''', question = ''Capital of Italy?'',
        correctAnswer = ''Rome'', dummyAnswers = None, qindex = Some 2\<rparr>]"

text \<open>A question with four dummy answers.\<close>

definition q5 :: Question where
  "q5 = \<lparr>domain = ''N'', lesson = '''', question = ''Q'', correctAnswer = ''D'',
          dummyAnswers = Some [''A'', ''B'', ''C'', ''E''], qindex = Some 0\<rparr>"

text \<open>A store in which two other questions have the same correct answer.\<close>

definition bank_shared :: "Question list" where
  "bank_shared =
     [\<lparr>domain = ''Geo'', lesson = '''', question = ''Capital of France?'',
        correctAnswer = ''Paris'', dummyAnswers = None, qindex = Some 0\<rparr>,
      \<lparr>domain = ''Geo'', lesson = '''', question = ''Capital of Italy?'',
        correctAnswer = ''Rome'', dummyAnswers = None, qindex = Some 1\<rparr>,
      \<lparr>domain = ''Geo'', lesson = '''', question = ''Where is the Colosseum?'',
        correctAnswer = ''Rome'', dummyAnswers = None, qindex = Some 2\<rparr>]"

text \<open>The page after loading \<open>bank3\<close>, with three questions asked for.\<close>

definition loaded3 :: state where
  "loaded3 =
     \<lparr>loading = False, error = None, allQuestions = bank3,
      domains = [''General'', ''Geo''], selectedDomains = {''General'', ''Geo''},
      minQuestions = 3, sessionQuestions = [], sessionStarted = False, currentIndex = 0,
      currentOptions = [], status = Idle, statusMessage = [], autoAdvanceTimeout = None,
      timers = [], rand = rng_half\<rparr>"

text \<open>The session started from there.\<close>

definition started3 :: state where
  "started3 = final_state (startSession loaded3)"


definition loaded3_zero :: state where
  "loaded3_zero = loaded3\<lparr>minQuestions := 0\<rparr>"

text \<open>A selection that matches no question, and a page with an empty store.\<close>

definition loaded3_nomatch :: state where
  "loaded3_nomatch = loaded3\<lparr>selectedDomains := {''Net''}\<rparr>"

definition loaded_empty :: state where
  "loaded_empty = loaded3\<lparr>allQuestions := [], domains := [], selectedDomains := {}\<rparr>"

declare topup_loop.simps [simp del]

section \<open>Properties of shuffleArray\<close>

lemma Math_random_ok:
  assumes "rng_ok g"
  shows "0 \<le> fst (Math_random g)" and "fst (Math_random g) < 1"
    and "rng_ok (snd (Math_random g))"
  using assms by (simp_all add: Math_random_def rng_ok_def)

lemma random_index_le:
  assumes "0 \<le> r" and "r < (1::rat)"
  shows "nat \<lfloor>r * of_nat (Suc i)\<rfloor> \<le> i"
proof -
  have "r * of_nat (Suc i) < of_nat (Suc i)"
    using assms by (simp add: mult_less_cancel_right2 del: of_nat_Suc)
  then have "\<lfloor>r * of_nat (Suc i)\<rfloor> < int (Suc i)"
    by (simp add: floor_less_iff del: of_nat_Suc)
  then show ?thesis by linarith
qed

lemma mset_swap_list:
  assumes "i < length a" and "j < length a"
  shows "mset (swap a i j) = mset a"
  unfolding swap_def using mset_swap [OF assms(2) assms(1)] .

lemma length_swap [simp]: "length (swap a i j) = length a"
  by (simp add: swap_def)

lemma length_shuffle_loop [simp]: "length (fst (shuffle_loop n a g)) = length a"
  by (induction n arbitrary: a g) (simp_all add: Let_def split: prod.splits)

lemma length_shuffleArray [simp]: "length (fst (shuffleArray a g)) = length a"
  by (simp add: shuffleArray_def)

lemma mset_shuffle_loop:
  assumes "rng_ok g" and "n < length a \<or> n = 0"
  shows "mset (fst (shuffle_loop n a g)) = mset a"
  using assms
proof (induction n arbitrary: a g)
  case 0
  then show ?case by simp
next
  case (Suc n)
  obtain r g' where rg: "Math_random g = (r, g')" by (cases "Math_random g")
  from Suc.prems have len: "Suc n < length a" by auto
  have r: "0 \<le> r" "r < 1" and g': "rng_ok g'"
    using Math_random_ok [OF Suc.prems(1)] rg by simp_all
  let ?j = "nat \<lfloor>r * of_nat (Suc n + 1)\<rfloor>"
  have j: "?j \<le> Suc n" using random_index_le [OF r, of "Suc n"] by simp
  have "mset (swap a (Suc n) ?j) = mset a"
    using len j by (intro mset_swap_list) simp_all
  moreover have "mset (fst (shuffle_loop n (swap a (Suc n) ?j) g')) = mset (swap a (Suc n) ?j)"
    using len g' by (intro Suc.IH) simp_all
  ultimately show ?case using rg by (simp add: Let_def)
qed

lemma rng_ok_shuffle_loop:
  "rng_ok g \<Longrightarrow> rng_ok (snd (shuffle_loop n a g))"
proof (induction n arbitrary: a g)
  case 0
  then show ?case by simp
next
  case (Suc n)
  obtain r g' where rg: "Math_random g = (r, g')" by (cases "Math_random g")
  then have "rng_ok g'" using Math_random_ok(3) [OF Suc.prems] by simp
  then show ?case using rg Suc.IH by (simp add: Let_def)
qed

lemma rng_ok_shuffleArray: "rng_ok g \<Longrightarrow> rng_ok (snd (shuffleArray a g))"
  by (simp add: shuffleArray_def rng_ok_shuffle_loop)

lemma mset_shuffleArray:
  assumes "rng_ok g"
  shows "mset (fst (shuffleArray a g)) = mset a"
proof (cases a)
  case Nil
  then show ?thesis by (simp add: shuffleArray_def)
next
  case (Cons x xs)
  then show ?thesis
    unfolding shuffleArray_def by (intro mset_shuffle_loop [OF assms]) simp
qed

section \<open>Properties of the option builder\<close>

lemma length_fold_add_dummy:
  "length (fst (fold add_dummy ds (options, seen))) = length options + card (set ds - seen)"
proof (induction ds arbitrary: options seen)
  case Nil
  then show ?case by simp
next
  case (Cons t ds)
  show ?case
  proof (cases "t \<in> seen")
    case True
    then have "set (t # ds) - seen = set ds - seen" by auto
    with True Cons.IH show ?thesis by (simp add: add_dummy_def)
  next
    case False
    then have eq: "set (t # ds) - seen = insert t (set ds - insert t seen)" by auto
    have "card (insert t (set ds - insert t seen)) = Suc (card (set ds - insert t seen))"
      by (intro card_insert_disjoint) auto
    with False Cons.IH eq show ?thesis by (simp add: add_dummy_def)
  qed
qed

lemma seen_fold_add_dummy:
  "snd (fold add_dummy ds (options, seen)) = seen \<union> set ds"
  by (induction ds arbitrary: options seen) (auto simp: add_dummy_def)

lemma correct_fold_add_dummy:
  "filter correct (fst (fold add_dummy ds (options, seen))) = filter correct options"
  by (induction ds arbitrary: options seen) (auto simp: add_dummy_def)

lemma fst_topup_loop:
  "fst (topup_loop i needed pool acc) =
     fst acc @ map (\<lambda>t. \<lparr>otext = t, correct = False\<rparr>) (drop i (take needed pool))"
proof (induction i needed pool acc rule: topup_loop.induct)
  case (1 i needed pool acc)
  show ?case
  proof (cases "i < needed \<and> i < length pool")
    case True
    then have "drop i (take needed pool) = pool ! i # drop (Suc i) (take needed pool)"
      by (simp add: Cons_nth_drop_Suc [symmetric])
    with True "1.IH" show ?thesis
      by (subst topup_loop.simps) simp
  next
    case False
    then have "drop i (take needed pool) = []" by auto
    moreover have "topup_loop i needed pool acc = acc"
      by (subst topup_loop.simps) (simp only: False if_False)
    ultimately show ?thesis by simp
  qed
qed

lemma available_distractors_seen:
  "filter (\<lambda>t. t \<notin> {correctAnswer q} \<union> set (case dummyAnswers q of Some ds \<Rightarrow> ds | None \<Rightarrow> []))
      (getGlobalDistractorPool allQ (qindex q)) = available_distractors allQ q"
  unfolding available_distractors_def unique_dummies_def
  by (intro filter_cong) auto


lemma buildOptions_cases:
  fixes allQ q g
  defines "acc \<equiv> fold add_dummy (case dummyAnswers q of Some ds \<Rightarrow> ds | None \<Rightarrow> [])
                    ([\<lparr>otext = correctAnswer q, correct = True\<rparr>], {correctAnswer q})"
  defines "needed \<equiv> nat (max 0 (desiredOptionCount - int (length (fst acc))))"
  defines "sh \<equiv> shuffleArray
                   (filter (\<lambda>t. t \<notin> snd acc) (getGlobalDistractorPool allQ (qindex q))) g"
  shows "buildOptionsForQuestion allQ q g =
           (if needed > 0 then shuffleArray (fst (topup_loop 0 needed (fst sh) acc)) (snd sh)
            else shuffleArray (fst acc) g)"
  unfolding buildOptionsForQuestion_def acc_def needed_def sh_def
  by (simp only: Let_def split_beta prod.collapse)

lemma filter_singleton_perm:
  assumes "mset xs = mset ys" and "filter P ys = [x]"
  shows "filter P xs = [x]"
proof -
  have "mset (filter P xs) = mset (filter P ys)"
    using assms(1) by (simp only: mset_filter)
  then have "mset (filter P xs) = {#x#}" using assms(2) by simp
  then show ?thesis by (simp only: mset_single_iff)
qed

lemma buildOptions_correct_entries:
  assumes "rng_ok g"
  shows "filter correct (fst (buildOptionsForQuestion allQ q g)) =
           [\<lparr>otext = correctAnswer q, correct = True\<rparr>]"
proof -
  define acc where "acc = fold add_dummy (case dummyAnswers q of Some ds \<Rightarrow> ds | None \<Rightarrow> [])
                    ([\<lparr>otext = correctAnswer q, correct = True\<rparr>], {correctAnswer q})"
  define needed where "needed = nat (max 0 (desiredOptionCount - int (length (fst acc))))"
  define sh where "sh = shuffleArray
                   (filter (\<lambda>t. t \<notin> snd acc) (getGlobalDistractorPool allQ (qindex q))) g"
  have build: "buildOptionsForQuestion allQ q g =
           (if needed > 0 then shuffleArray (fst (topup_loop 0 needed (fst sh) acc)) (snd sh)
            else shuffleArray (fst acc) g)"
    unfolding acc_def needed_def sh_def by (rule buildOptions_cases)
  have acc: "filter correct (fst acc) = [\<lparr>otext = correctAnswer q, correct = True\<rparr>]"
    unfolding acc_def by (simp add: correct_fold_add_dummy)
  have topup: "filter correct (fst (topup_loop 0 needed (fst sh) acc)) =
                 [\<lparr>otext = correctAnswer q, correct = True\<rparr>]"
    by (simp add: fst_topup_loop acc filter_map comp_def)
  have sh: "rng_ok (snd sh)"
    unfolding sh_def using assms by (rule rng_ok_shuffleArray)
  show ?thesis
  proof (cases "needed > 0")
    case True
    then show ?thesis
      using filter_singleton_perm [OF mset_shuffleArray [OF sh] topup] by (simp add: build)
  next
    case False
    then show ?thesis
      using filter_singleton_perm [OF mset_shuffleArray [OF assms] acc] by (simp add: build)
  qed
qed


lemma buildOptions_length:
  "length (fst (buildOptionsForQuestion allQ q g)) =
     max (1 + card (unique_dummies q))
       (min 4 (1 + card (unique_dummies q) + length (available_distractors allQ q)))"
proof -
  define perQ where "perQ = (case dummyAnswers q of Some ds \<Rightarrow> ds | None \<Rightarrow> [])"
  define acc where "acc = fold add_dummy perQ
                    ([\<lparr>otext = correctAnswer q, correct = True\<rparr>], {correctAnswer q})"
  define needed where "needed = nat (max 0 (desiredOptionCount - int (length (fst acc))))"
  define sh where "sh = shuffleArray
                   (filter (\<lambda>t. t \<notin> snd acc) (getGlobalDistractorPool allQ (qindex q))) g"
  have build: "buildOptionsForQuestion allQ q g =
           (if needed > 0 then shuffleArray (fst (topup_loop 0 needed (fst sh) acc)) (snd sh)
            else shuffleArray (fst acc) g)"
    unfolding acc_def needed_def sh_def perQ_def by (rule buildOptions_cases)
  have len: "length (fst acc) = 1 + card (unique_dummies q)"
    unfolding acc_def perQ_def by (simp add: length_fold_add_dummy unique_dummies_def)
  have seen: "snd acc = {correctAnswer q} \<union> set perQ"
    unfolding acc_def by (simp only: seen_fold_add_dummy)
  have pool: "length (fst sh) = length (available_distractors allQ q)"
    unfolding sh_def seen perQ_def by (simp only: length_shuffleArray available_distractors_seen)
  have needed: "needed = 4 - length (fst acc)"
    unfolding needed_def desiredOptionCount_def by simp
  show ?thesis
  proof (cases "needed > 0")
    case True
    have "length (fst (buildOptionsForQuestion allQ q g)) =
            length (fst acc) + min needed (length (fst sh))"
      using True by (simp add: build fst_topup_loop min.commute)
    then show ?thesis using True needed len pool by simp
  next
    case False
    have "length (fst (buildOptionsForQuestion allQ q g)) = length (fst acc)"
      using False by (simp add: build)
    then show ?thesis using False needed len by simp
  qed
qed

section \<open>Properties of the timer operations\<close>

lemma clearAutoAdvanceTimer_fields [simp]:
  "loading (clearAutoAdvanceTimer s) = loading s"
  "error (clearAutoAdvanceTimer s) = error s"
  "allQuestions (clearAutoAdvanceTimer s) = allQuestions s"
  "domains (clearAutoAdvanceTimer s) = domains s"
  "selectedDomains (clearAutoAdvanceTimer s) = selectedDomains s"
  "minQuestions (clearAutoAdvanceTimer s) = minQuestions s"
  "sessionQuestions (clearAutoAdvanceTimer s) = sessionQuestions s"
  "sessionStarted (clearAutoAdvanceTimer s) = sessionStarted s"
  "currentIndex (clearAutoAdvanceTimer s) = currentIndex s"
  "currentOptions (clearAutoAdvanceTimer s) = currentOptions s"
  "status (clearAutoAdvanceTimer s) = status s"
  "statusMessage (clearAutoAdvanceTimer s) = statusMessage s"
  "rand (clearAutoAdvanceTimer s) = rand s"
  "autoAdvanceTimeout (clearAutoAdvanceTimer s) = None"
  by (simp_all add: clearAutoAdvanceTimer_def split: option.splits)

lemma timers_clearAutoAdvanceTimer:
  "timers (clearAutoAdvanceTimer s) =
     (case autoAdvanceTimeout s of None \<Rightarrow> timers s | Some h \<Rightarrow> clearTimeout h (timers s))"
  by (simp add: clearAutoAdvanceTimer_def split: option.splits)

lemma timer_inv_clear:
  assumes "timer_inv s"
  shows "timers (clearAutoAdvanceTimer s) = []"
  using assms
  by (auto simp: timer_inv_def timers_clearAutoAdvanceTimer clearTimeout_def split: option.splits)

lemma scheduleAutoAdvance_fields [simp]:
  "loading (scheduleAutoAdvance s) = loading s"
  "error (scheduleAutoAdvance s) = error s"
  "allQuestions (scheduleAutoAdvance s) = allQuestions s"
  "domains (scheduleAutoAdvance s) = domains s"
  "selectedDomains (scheduleAutoAdvance s) = selectedDomains s"
  "minQuestions (scheduleAutoAdvance s) = minQuestions s"
  "sessionQuestions (scheduleAutoAdvance s) = sessionQuestions s"
  "sessionStarted (scheduleAutoAdvance s) = sessionStarted s"
  "currentIndex (scheduleAutoAdvance s) = currentIndex s"
  "currentOptions (scheduleAutoAdvance s) = currentOptions s"
  "status (scheduleAutoAdvance s) = status s"
  "statusMessage (scheduleAutoAdvance s) = statusMessage s"
  "rand (scheduleAutoAdvance s) = rand s"
  by (simp_all add: scheduleAutoAdvance_def setTimeout_def Let_def)

lemma scheduleAutoAdvance_timer:
  "autoAdvanceTimeout (scheduleAutoAdvance s) =
     Some (fresh_handle (timers (clearAutoAdvanceTimer s)))"
  "timers (scheduleAutoAdvance s) =
     timers (clearAutoAdvanceTimer s) @ [(fresh_handle (timers (clearAutoAdvanceTimer s)), 1000)]"
  by (simp_all add: scheduleAutoAdvance_def setTimeout_def Let_def)

lemma fold_max_ge: "m \<le> fold max xs (m::nat)"
  by (induction xs arbitrary: m) (auto intro: order_trans [OF max.cobounded2])

lemma fold_max_mem: "x \<in> set xs \<Longrightarrow> x \<le> fold max xs (m::nat)"
  by (induction xs arbitrary: m) (auto intro: order_trans [OF max.cobounded1 fold_max_ge])

lemma fresh_handle_fresh: "fresh_handle ts \<notin> fst ` set ts"
proof
  assume "fresh_handle ts \<in> fst ` set ts"
  then have "fresh_handle ts \<le> fold max (map fst ts) 0"
    by (intro fold_max_mem) simp
  then show False by (simp add: fresh_handle_def)
qed

lemma fresh_handle_pos: "0 < fresh_handle ts"
  by (simp add: fresh_handle_def)

lemma prepareCurrentQuestion_fields [simp]:
  "loading (final_state (prepareCurrentQuestion s)) = loading s"
  "error (final_state (prepareCurrentQuestion s)) = error s"
  "allQuestions (final_state (prepareCurrentQuestion s)) = allQuestions s"
  "domains (final_state (prepareCurrentQuestion s)) = domains s"
  "selectedDomains (final_state (prepareCurrentQuestion s)) = selectedDomains s"
  "minQuestions (final_state (prepareCurrentQuestion s)) = minQuestions s"
  "sessionQuestions (final_state (prepareCurrentQuestion s)) = sessionQuestions s"
  "sessionStarted (final_state (prepareCurrentQuestion s)) = sessionStarted s"
  "currentIndex (final_state (prepareCurrentQuestion s)) = currentIndex s"
  "autoAdvanceTimeout (final_state (prepareCurrentQuestion s)) = autoAdvanceTimeout s"
  "timers (final_state (prepareCurrentQuestion s)) = timers s"
  by (simp_all add: prepareCurrentQuestion_def Let_def split: option.splits prod.splits)

lemma prepareCurrentQuestion_returns:
  assumes "currentIndex s < length (sessionQuestions s)" and "refs_ok s"
  shows "returned (prepareCurrentQuestion s)"
    and "status (final_state (prepareCurrentQuestion s)) = Idle"
    and "statusMessage (final_state (prepareCurrentQuestion s)) = []"
proof -
  from assms have "valid_ref (allQuestions s) (sessionQuestions s ! currentIndex s)"
    by (simp add: refs_ok_def list_all_length)
  then obtain qu where
    "question_at (allQuestions s) (array_get (sessionQuestions s) (currentIndex s)) = Some qu"
    using assms(1)
    by (cases "sessionQuestions s ! currentIndex s") (simp_all add: question_at_def array_get_def)
  then show "returned (prepareCurrentQuestion s)"
    and "status (final_state (prepareCurrentQuestion s)) = Idle"
    and "statusMessage (final_state (prepareCurrentQuestion s)) = []"
    by (simp_all add: prepareCurrentQuestion_def Let_def split: prod.splits)
qed

lemma rng_ok_buildOptions:
  assumes "rng_ok g"
  shows "rng_ok (snd (buildOptionsForQuestion allQ q g))"
proof -
  have "rng_ok (snd (shuffleArray xs g'))" if "rng_ok g'" for xs :: "QuizOption list" and g'
    using that by (rule rng_ok_shuffleArray)
  moreover have "rng_ok (snd (shuffleArray xs g))" for xs :: "string list"
    using assms by (rule rng_ok_shuffleArray)
  ultimately show ?thesis
    using assms by (simp add: buildOptions_cases)
qed

lemma rng_ok_prepareCurrentQuestion:
  assumes "rng_ok (rand s)"
  shows "rng_ok (rand (final_state (prepareCurrentQuestion s)))"
  using rng_ok_buildOptions [OF assms] assms
  by (simp add: prepareCurrentQuestion_def Let_def split_beta split: option.splits)

section \<open>Properties of handleAnswerClick\<close>

lemma handleAnswerClick_answered:
  "status s \<noteq> Idle \<Longrightarrow> handleAnswerClick opt s = s"
  by (simp add: handleAnswerClick_def)

lemma handleAnswerClick_fields [simp]:
  "loading (handleAnswerClick opt s) = loading s"
  "error (handleAnswerClick opt s) = error s"
  "allQuestions (handleAnswerClick opt s) = allQuestions s"
  "domains (handleAnswerClick opt s) = domains s"
  "selectedDomains (handleAnswerClick opt s) = selectedDomains s"
  "minQuestions (handleAnswerClick opt s) = minQuestions s"
  "sessionStarted (handleAnswerClick opt s) = sessionStarted s"
  "currentIndex (handleAnswerClick opt s) = currentIndex s"
  "currentOptions (handleAnswerClick opt s) = currentOptions s"
  "rand (handleAnswerClick opt s) = rand s"
  by (simp_all add: handleAnswerClick_def Let_def)

lemma handleAnswerClick_queue:
  "sessionQuestions (handleAnswerClick opt s) =
     (if status s = Idle \<and> \<not> correct opt
         \<and> array_get (sessionQuestions s) (currentIndex s)
               \<notin> set (drop (Suc (currentIndex s)) (sessionQuestions s))
      then sessionQuestions s @ [array_get (sessionQuestions s) (currentIndex s)]
      else sessionQuestions s)"
  by (simp add: handleAnswerClick_def Let_def)

lemma handleAnswerClick_status:
  "status (handleAnswerClick opt s) =
     (if status s = Idle then (if correct opt then Correct else Incorrect) else status s)"
  by (simp add: handleAnswerClick_def Let_def)

lemma handleAnswerClick_timers_correct:
  assumes "status s = Idle" and "correct opt"
  shows "handleAnswerClick opt s =
           scheduleAutoAdvance
             ((clearAutoAdvanceTimer s)\<lparr>status := Correct, statusMessage := ''Correct!''\<rparr>)"
  using assms by (simp add: handleAnswerClick_def Let_def)

lemma handleAnswerClick_timers_incorrect:
  assumes "status s = Idle" and "\<not> correct opt"
  shows "timers (handleAnswerClick opt s) = timers (clearAutoAdvanceTimer s)"
    and "autoAdvanceTimeout (handleAnswerClick opt s) = None"
  using assms by (simp_all add: handleAnswerClick_def Let_def)

lemma handleAnswerClick_record:
  "handleAnswerClick opt s =
     s\<lparr>sessionQuestions := sessionQuestions (handleAnswerClick opt s),
       status := status (handleAnswerClick opt s),
       statusMessage := statusMessage (handleAnswerClick opt s),
       autoAdvanceTimeout := autoAdvanceTimeout (handleAnswerClick opt s),
       timers := timers (handleAnswerClick opt s)\<rparr>"
  by (rule state.equality) simp_all

lemma handleAnswerClick_page_record:
  "handleAnswerClick_page opt s =
     s\<lparr>status := status (handleAnswerClick_page opt s),
       statusMessage := statusMessage (handleAnswerClick_page opt s)\<rparr>"
  by (rule state.equality) (simp_all add: handleAnswerClick_page_def)

lemma array_get_nth: "i < length xs \<Longrightarrow> array_get xs i = xs ! i"
  by (simp add: array_get_def)

lemma count_list_distinct:
  "distinct xs \<Longrightarrow> x \<in> set xs \<Longrightarrow> count_list xs x = 1"
  by (induction xs) (auto simp: count_list_0_iff)

lemma session_wf_handleAnswerClick:
  assumes "session_wf s"
  shows "session_wf (handleAnswerClick opt s)"
proof -
  let ?q = "sessionQuestions s" and ?i = "currentIndex s"
  from assms have i: "?i < length ?q" and refs: "refs_ok s" and dist: "pending_distinct s"
    by (simp_all add: session_wf_def)
  have cur: "array_get ?q ?i = ?q ! ?i" using i by (rule array_get_nth)
  have valid: "valid_ref (allQuestions s) (?q ! ?i)"
    using i refs by (simp add: refs_ok_def list_all_length)
  show ?thesis
    unfolding session_wf_def refs_ok_def pending_distinct_def
    using i refs dist valid
    by (simp add: handleAnswerClick_queue cur refs_ok_def pending_distinct_def)
qed

lemma active_session_handleAnswerClick:
  assumes "active_session s"
  shows "active_session (handleAnswerClick opt s)"
  using assms session_wf_handleAnswerClick [of s opt] by (simp add: active_session_def)

section \<open>Properties of nextQuestion\<close>

lemma nextQuestion_not_started:
  "\<not> sessionStarted s \<Longrightarrow> nextQuestion auto s = Returned s"
  by (simp add: nextQuestion_def)

lemma nextQuestion_advance:
  assumes "sessionStarted s" and "Suc (currentIndex s) < length (sessionQuestions s)"
  shows "nextQuestion auto s =
           prepareCurrentQuestion ((clearAutoAdvanceTimer s)\<lparr>currentIndex := Suc (currentIndex s)\<rparr>)"
  using assms by (simp add: nextQuestion_def Let_def)

lemma nextQuestion_end:
  assumes "sessionStarted s" and "\<not> Suc (currentIndex s) < length (sessionQuestions s)"
  shows "nextQuestion auto s =
           Returned ((clearAutoAdvanceTimer s)\<lparr>status := Idle, statusMessage := [],
                                               sessionStarted := False\<rparr>)"
proof -
  have "\<not> int (currentIndex s) < int (length (sessionQuestions s)) - 1"
    using assms(2) by linarith
  then show ?thesis using assms(1) by (simp add: nextQuestion_def Let_def)
qed

lemma nextQuestion_fields [simp]:
  "loading (final_state (nextQuestion auto s)) = loading s"
  "error (final_state (nextQuestion auto s)) = error s"
  "allQuestions (final_state (nextQuestion auto s)) = allQuestions s"
  "domains (final_state (nextQuestion auto s)) = domains s"
  "selectedDomains (final_state (nextQuestion auto s)) = selectedDomains s"
  "minQuestions (final_state (nextQuestion auto s)) = minQuestions s"
  "sessionQuestions (final_state (nextQuestion auto s)) = sessionQuestions s"
  by (simp_all add: nextQuestion_def Let_def)

lemma nextQuestion_position:
  "currentIndex (final_state (nextQuestion auto s)) =
     (if sessionStarted s \<and> Suc (currentIndex s) < length (sessionQuestions s)
      then Suc (currentIndex s) else currentIndex s)"
  "sessionStarted (final_state (nextQuestion auto s)) =
     (sessionStarted s \<and> Suc (currentIndex s) < length (sessionQuestions s))"
proof -
  consider "\<not> sessionStarted s"
    | "sessionStarted s" "Suc (currentIndex s) < length (sessionQuestions s)"
    | "sessionStarted s" "\<not> Suc (currentIndex s) < length (sessionQuestions s)"
    by blast
  then have "currentIndex (final_state (nextQuestion auto s)) =
     (if sessionStarted s \<and> Suc (currentIndex s) < length (sessionQuestions s)
      then Suc (currentIndex s) else currentIndex s)
    \<and> sessionStarted (final_state (nextQuestion auto s)) =
     (sessionStarted s \<and> Suc (currentIndex s) < length (sessionQuestions s))"
  proof cases
    case 1
    then show ?thesis by (simp add: nextQuestion_not_started)
  next
    case 2
    then show ?thesis by (simp add: nextQuestion_advance)
  next
    case 3
    then show ?thesis by (simp add: nextQuestion_end)
  qed
  then show "currentIndex (final_state (nextQuestion auto s)) =
     (if sessionStarted s \<and> Suc (currentIndex s) < length (sessionQuestions s)
      then Suc (currentIndex s) else currentIndex s)"
    and "sessionStarted (final_state (nextQuestion auto s)) =
     (sessionStarted s \<and> Suc (currentIndex s) < length (sessionQuestions s))"
    by simp_all
qed

lemma nextQuestion_timers:
  assumes "sessionStarted s"
  shows "timers (final_state (nextQuestion auto s)) = timers (clearAutoAdvanceTimer s)"
    and "autoAdvanceTimeout (final_state (nextQuestion auto s)) = None"
  using assms by (simp_all add: nextQuestion_def Let_def)

lemma position_inv_nextQuestion:
  "position_inv (final_state (nextQuestion auto s))"
  by (simp add: position_inv_def nextQuestion_position)

lemma active_session_nextQuestion:
  assumes "active_session s"
  shows "returned (nextQuestion auto s)"
    and "sessionStarted (final_state (nextQuestion auto s))
           \<Longrightarrow> active_session (final_state (nextQuestion auto s))"
    and "sessionStarted (final_state (nextQuestion auto s))
           \<Longrightarrow> status (final_state (nextQuestion auto s)) = Idle"
proof -
  from assms have started: "sessionStarted s" and refs: "refs_ok s"
    and dist: "distinct (drop (Suc (currentIndex s)) (sessionQuestions s))"
    by (simp_all add: active_session_def session_wf_def pending_distinct_def)
  let ?s1 = "(clearAutoAdvanceTimer s)\<lparr>currentIndex := Suc (currentIndex s)\<rparr>"
  have refs1: "refs_ok ?s1" using refs by (simp add: refs_ok_def)
  show "returned (nextQuestion auto s)"
  proof (cases "Suc (currentIndex s) < length (sessionQuestions s)")
    case True
    then have "returned (prepareCurrentQuestion ?s1)"
      using refs1 by (intro prepareCurrentQuestion_returns) simp_all
    then show ?thesis using started True by (simp add: nextQuestion_advance)
  next
    case False
    then show ?thesis using started by (simp add: nextQuestion_end)
  qed
  assume "sessionStarted (final_state (nextQuestion auto s))"
  then have lt: "Suc (currentIndex s) < length (sessionQuestions s)"
    by (simp add: nextQuestion_position)
  have "distinct (drop (Suc (Suc (currentIndex s))) (sessionQuestions s))"
    using dist by (metis distinct_drop drop_drop plus_1_eq_Suc)
  then show "active_session (final_state (nextQuestion auto s))"
    using lt started refs
    by (simp add: active_session_def session_wf_def pending_distinct_def refs_ok_def nextQuestion_position)
  show "status (final_state (nextQuestion auto s)) = Idle"
    using lt started prepareCurrentQuestion_returns(2) [of ?s1] refs1
    by (simp add: nextQuestion_advance)
qed

lemma session_wf_nextQuestion:
  assumes "session_wf s"
  shows "returned (nextQuestion auto s)"
    and "session_wf (final_state (nextQuestion auto s))"
proof -
  from assms have i: "currentIndex s < length (sessionQuestions s)" and refs: "refs_ok s"
    and dist: "pending_distinct s"
    by (simp_all add: session_wf_def)
  have both: "returned (nextQuestion auto s) \<and> session_wf (final_state (nextQuestion auto s))"
  proof (cases "sessionStarted s \<and> Suc (currentIndex s) < length (sessionQuestions s)")
    case True
    then have "active_session s" using assms by (simp add: active_session_def)
    from active_session_nextQuestion(1,2) [OF this, of auto] True show ?thesis
      by (simp add: active_session_def nextQuestion_position)
  next
    case False
    then consider "\<not> sessionStarted s"
      | "sessionStarted s" "\<not> Suc (currentIndex s) < length (sessionQuestions s)"
      by blast
    then show ?thesis
    proof cases
      case 1
      then show ?thesis using assms by (simp add: nextQuestion_not_started)
    next
      case 2
      then show ?thesis
        using i refs dist
        by (simp add: nextQuestion_end session_wf_def refs_ok_def pending_distinct_def)
    qed
  qed
  then show "returned (nextQuestion auto s)"
    and "session_wf (final_state (nextQuestion auto s))"
    by simp_all
qed

section \<open>Properties of startSession\<close>

lemma length_js_slice0:
  "length (js_slice0 xs e) =
     (if e < 0 then nat (int (length xs) + e) else min (nat e) (length xs))"
  by (auto simp: js_slice0_def Let_def)


lemma startSession_empty_store:
  "allQuestions s = [] \<Longrightarrow> startSession s = Returned s"
  by (simp add: startSession_def)

lemma candidates_of_clear [simp]:
  "activeDomains_of (clearAutoAdvanceTimer s) = activeDomains_of s"
  by (simp add: activeDomains_of_def)

lemma startSession_no_candidates:
  assumes "allQuestions s \<noteq> []" and "candidates_of s = []"
  shows "startSession s =
           Returned ((clearAutoAdvanceTimer s)
             \<lparr>selectedDomains := (if selectedDomains s = {} then set (domains s)
                                  else selectedDomains s),
              error := Some ''No questions found for the selected domains.''\<rparr>)"
  using assms by (simp add: startSession_def candidates_of_def Let_def)

text \<open>The queue a successful start builds from the shuffled candidates.\<close>

lemma startSession_candidates:
  assumes "allQuestions s \<noteq> []" and "candidates_of s \<noteq> []"
  shows "sessionQuestions (final_state (startSession s)) =
           (if int (length (candidates_of s)) > minQuestions s
            then js_slice0 (fst (shuffleArray (candidates_of s) (rand s))) (minQuestions s)
            else fst (shuffleArray (candidates_of s) (rand s)))"
    and "currentIndex (final_state (startSession s)) = 0"
    and "sessionStarted (final_state (startSession s))"
    and "timers (final_state (startSession s)) = timers (clearAutoAdvanceTimer s)"
    and "autoAdvanceTimeout (final_state (startSession s)) = None"
    and "error (final_state (startSession s)) = error s"
  using assms
  by (simp_all add: startSession_def candidates_of_def Let_def split_beta)

lemma startSession_fields [simp]:
  "loading (final_state (startSession s)) = loading s"
  "allQuestions (final_state (startSession s)) = allQuestions s"
  "domains (final_state (startSession s)) = domains s"
  "minQuestions (final_state (startSession s)) = minQuestions s"
  by (simp_all add: startSession_def Let_def split_beta)

lemma startSession_prepare:
  assumes "allQuestions s \<noteq> []" and "candidates_of s \<noteq> []"
  shows "startSession s =
           prepareCurrentQuestion
             ((if selectedDomains s = {}
               then (clearAutoAdvanceTimer s)\<lparr>selectedDomains := set (domains s)\<rparr>
               else clearAutoAdvanceTimer s)
                \<lparr>sessionQuestions :=
                   (if int (length (candidates_of s)) > minQuestions s
                    then js_slice0 (fst (shuffleArray (candidates_of s) (rand s))) (minQuestions s)
                    else fst (shuffleArray (candidates_of s) (rand s))),
                 currentIndex := 0, sessionStarted := True,
                 rand := snd (shuffleArray (candidates_of s) (rand s))\<rparr>)"
  using assms by (simp add: startSession_def candidates_of_def Let_def split_beta)

lemma valid_filter_candidates:
  "list_all (valid_ref allQ) (filter_candidates allQ ds)"
  by (simp add: filter_candidates_def list_all_iff)

lemma distinct_filter_candidates: "distinct (filter_candidates allQ ds)"
  by (simp add: filter_candidates_def distinct_map inj_on_def)

lemma shuffled_candidates:
  assumes "rng_ok (rand s)"
  shows "mset (fst (shuffleArray (candidates_of s) (rand s))) = mset (candidates_of s)"
    and "distinct (fst (shuffleArray (candidates_of s) (rand s)))"
    and "list_all (valid_ref (allQuestions s)) (fst (shuffleArray (candidates_of s) (rand s)))"
proof -
  show perm: "mset (fst (shuffleArray (candidates_of s) (rand s))) = mset (candidates_of s)"
    using assms by (rule mset_shuffleArray)
  show "distinct (fst (shuffleArray (candidates_of s) (rand s)))"
    using perm distinct_filter_candidates [of "allQuestions s" "activeDomains_of s"]
    by (metis candidates_of_def mset_eq_imp_distinct_iff)
  have "set (fst (shuffleArray (candidates_of s) (rand s))) = set (candidates_of s)"
    using perm by (rule mset_eq_setD)
  then show "list_all (valid_ref (allQuestions s)) (fst (shuffleArray (candidates_of s) (rand s)))"
    using valid_filter_candidates [of "allQuestions s" "activeDomains_of s"]
    by (simp add: list_all_iff candidates_of_def)
qed

lemma startSession_queue_prefix:
  assumes "allQuestions s \<noteq> []" and "candidates_of s \<noteq> []"
  shows "\<exists>k. sessionQuestions (final_state (startSession s)) =
               take k (fst (shuffleArray (candidates_of s) (rand s)))"
proof (cases "int (length (candidates_of s)) > minQuestions s")
  case True
  then show ?thesis
    using startSession_candidates(1) [OF assms] by (auto simp: js_slice0_def Let_def)
next
  case False
  then have "sessionQuestions (final_state (startSession s)) =
      take (length (candidates_of s)) (fst (shuffleArray (candidates_of s) (rand s)))"
    using startSession_candidates(1) [OF assms] by simp
  then show ?thesis by blast
qed

lemma shuffleArray_Nil_iff [simp]: "fst (shuffleArray a g) = [] \<longleftrightarrow> a = []"
  using length_shuffleArray [of a g] by (metis length_0_conv)

lemma startSession_nonempty_queue:
  assumes "allQuestions s \<noteq> []" and "candidates_of s \<noteq> []" and "1 \<le> minQuestions s"
  shows "sessionQuestions (final_state (startSession s)) \<noteq> []"
proof -
  let ?sh = "fst (shuffleArray (candidates_of s) (rand s))"
  have sh: "?sh \<noteq> []" using assms(2) by simp
  then have "0 < min (nat (minQuestions s)) (length ?sh)"
    using assms(3) by simp
  then have "0 < length (js_slice0 ?sh (minQuestions s))"
    using assms(3) by (simp only: length_js_slice0 split: if_split) simp
  then have "js_slice0 ?sh (minQuestions s) \<noteq> []"
    by simp
  with sh show ?thesis
    by (simp add: startSession_candidates(1) [OF assms(1,2)])
qed

lemma position_inv_startSession:
  assumes "position_inv s" and "1 \<le> minQuestions s"
  shows "position_inv (final_state (startSession s))"
proof -
  consider "allQuestions s = []" | "allQuestions s \<noteq> []" "candidates_of s = []"
    | "allQuestions s \<noteq> []" "candidates_of s \<noteq> []"
    by blast
  then show ?thesis
  proof cases
    case 1
    then show ?thesis using assms(1) by (simp add: startSession_empty_store)
  next
    case 2
    then show ?thesis
      using assms(1) by (simp add: startSession_no_candidates position_inv_def)
  next
    case 3
    then show ?thesis
      using startSession_nonempty_queue [OF 3 assms(2)]
      by (simp add: position_inv_def startSession_candidates(2))
  qed
qed

lemma active_session_startSession:
  assumes "allQuestions s \<noteq> []" and "candidates_of s \<noteq> []" and "1 \<le> minQuestions s"
    and "rng_ok (rand s)"
  shows "returned (startSession s)"
    and "active_session (final_state (startSession s))"
    and "status (final_state (startSession s)) = Idle"
proof -
  let ?sh = "fst (shuffleArray (candidates_of s) (rand s))"
  let ?q = "sessionQuestions (final_state (startSession s))"
  obtain k where k: "?q = take k ?sh"
    using startSession_queue_prefix [OF assms(1,2)] by blast
  have ne: "?q \<noteq> []" using assms(1-3) by (rule startSession_nonempty_queue)
  have dist: "distinct ?q"
    unfolding k using shuffled_candidates(2) [OF assms(4)] by (rule distinct_take)
  have valid: "list_all (valid_ref (allQuestions s)) ?q"
    unfolding k using shuffled_candidates(3) [OF assms(4)]
    by (auto simp: list_all_iff dest: in_set_takeD)
  define s' where "s' = (if selectedDomains s = {}
               then (clearAutoAdvanceTimer s)\<lparr>selectedDomains := set (domains s)\<rparr>
               else clearAutoAdvanceTimer s)
                \<lparr>sessionQuestions :=
                   (if int (length (candidates_of s)) > minQuestions s
                    then js_slice0 (fst (shuffleArray (candidates_of s) (rand s))) (minQuestions s)
                    else fst (shuffleArray (candidates_of s) (rand s))),
                 currentIndex := 0, sessionStarted := True,
                 rand := snd (shuffleArray (candidates_of s) (rand s))\<rparr>"
  have s': "startSession s = prepareCurrentQuestion s'"
    "sessionQuestions s' = ?q" "currentIndex s' = 0" "allQuestions s' = allQuestions s"
    unfolding s'_def using startSession_prepare [OF assms(1,2)]
    by (simp_all add: startSession_candidates(1) [OF assms(1,2)])
  have pre: "currentIndex s' < length (sessionQuestions s')" "refs_ok s'"
    using ne valid s'(2-4) by (simp_all add: refs_ok_def)
  show "returned (startSession s)"
    unfolding s'(1) using pre by (rule prepareCurrentQuestion_returns)
  show "status (final_state (startSession s)) = Idle"
    unfolding s'(1) using pre by (rule prepareCurrentQuestion_returns)
  show "active_session (final_state (startSession s))"
    using ne dist valid
    by (simp add: active_session_def session_wf_def refs_ok_def pending_distinct_def
        startSession_candidates(2,3) [OF assms(1,2)])
qed

section \<open>Properties of the timer across events\<close>

lemma timer_inv_length: "timer_inv s \<Longrightarrow> length (timers s) \<le> 1"
  by (auto simp: timer_inv_def split: option.splits)

lemma clearTimeout_Nil [simp]: "clearTimeout h [] = []"
  by (simp add: clearTimeout_def)

lemma timers_clear_Nil: "timers s = [] \<Longrightarrow> timers (clearAutoAdvanceTimer s) = []"
  by (simp add: timers_clearAutoAdvanceTimer split: option.splits)

lemma clearAutoAdvanceTimer_None:
  "autoAdvanceTimeout t = None \<Longrightarrow> clearAutoAdvanceTimer t = t"
  by (simp add: clearAutoAdvanceTimer_def)

lemma timer_inv_handleAnswerClick:
  assumes "timer_inv s"
  shows "timer_inv (handleAnswerClick opt s)"
proof (cases "status s = Idle")
  case False
  then show ?thesis using assms by (simp add: handleAnswerClick_answered)
next
  case True
  show ?thesis
  proof (cases "correct opt")
    case True
    with \<open>status s = Idle\<close> show ?thesis
      by (simp add: handleAnswerClick_timers_correct timer_inv_def scheduleAutoAdvance_timer
          clearAutoAdvanceTimer_None timer_inv_clear [OF assms])
  next
    case False
    with \<open>status s = Idle\<close> show ?thesis
      by (simp add: timer_inv_def handleAnswerClick_timers_incorrect timer_inv_clear [OF assms])
  qed
qed

lemma armed_after_correct:
  assumes "timer_inv s" and "status s = Idle" and "correct opt"
  shows "timers (handleAnswerClick opt s) = [(fresh_handle [], 1000)]"
    and "autoAdvanceTimeout (handleAnswerClick opt s) = Some (fresh_handle [])"
  using assms(2,3)
  by (simp_all add: handleAnswerClick_timers_correct scheduleAutoAdvance_timer
      clearAutoAdvanceTimer_None timer_inv_clear [OF assms(1)])

lemma timers_nextQuestion_Nil:
  assumes "timer_inv s \<and> sessionStarted s \<or> timers s = []"
  shows "timers (final_state (nextQuestion auto s)) = []"
proof (cases "sessionStarted s")
  case True
  then show ?thesis
    using assms by (auto simp: nextQuestion_timers timer_inv_clear timers_clear_Nil)
next
  case False
  then show ?thesis using assms by (simp add: nextQuestion_not_started)
qed

lemma timer_inv_nextQuestion:
  assumes "timer_inv s"
  shows "timer_inv (final_state (nextQuestion auto s))"
proof (cases "sessionStarted s")
  case True
  then have "timers (final_state (nextQuestion auto s)) = []"
    using assms by (intro timers_nextQuestion_Nil) simp
  then show ?thesis by (simp add: timer_inv_def)
next
  case False
  then show ?thesis using assms by (simp add: nextQuestion_not_started)
qed

lemma timers_startSession:
  "timers (final_state (startSession s)) =
     (if allQuestions s = [] then timers s else timers (clearAutoAdvanceTimer s))"
  "allQuestions s \<noteq> [] \<Longrightarrow> autoAdvanceTimeout (final_state (startSession s)) = None"
  by (simp_all add: startSession_def Let_def split_beta)

lemma timer_inv_startSession:
  assumes "timer_inv s"
  shows "timer_inv (final_state (startSession s))"
proof (cases "allQuestions s = []")
  case True
  then show ?thesis using assms by (simp add: startSession_empty_store)
next
  case False
  then show ?thesis
    by (simp add: timer_inv_def timers_startSession timer_inv_clear [OF assms])
qed

lemma timer_fire_enabled:
  assumes "timer_inv s" and "timer_fire h s = Some out"
  shows "timers s = [(h, 1000)]" and "autoAdvanceTimeout s = Some h"
    and "out = nextQuestion True (s\<lparr>timers := []\<rparr>)"
proof -
  from assms(2) have mem: "h \<in> fst ` set (timers s)"
    and out: "out = nextQuestion True (s\<lparr>timers := clearTimeout h (timers s)\<rparr>)"
    by (auto simp: timer_fire_def split: if_splits)
  from mem assms(1) show ts: "timers s = [(h, 1000)]" and "autoAdvanceTimeout s = Some h"
    by (auto simp: timer_inv_def split: option.splits)
  show "out = nextQuestion True (s\<lparr>timers := []\<rparr>)"
    using out by (simp add: ts clearTimeout_def)
qed

lemma timer_fire_none: "timers s = [] \<Longrightarrow> timer_fire h s = None"
  by (simp add: timer_fire_def)

lemma timer_fire_is_advance:
  assumes "timers s = [(h, d)]" and "autoAdvanceTimeout s = Some h"
  shows "timer_fire h s = Some (nextQuestion True (s\<lparr>timers := []\<rparr>))"
    and "sessionStarted s \<Longrightarrow> nextQuestion True (s\<lparr>timers := []\<rparr>) = nextQuestion False s"
proof -
  show "timer_fire h s = Some (nextQuestion True (s\<lparr>timers := []\<rparr>))"
    using assms by (simp add: timer_fire_def clearTimeout_def)
  have "clearAutoAdvanceTimer (s\<lparr>timers := []\<rparr>) = clearAutoAdvanceTimer s"
    using assms by (simp add: clearAutoAdvanceTimer_def clearTimeout_def)
  then show "nextQuestion True (s\<lparr>timers := []\<rparr>) = nextQuestion False s"
    if "sessionStarted s"
    using that by (simp add: nextQuestion_def)
qed

lemma timer_inv_step:
  assumes "timer_inv s"
  shows "timer_inv (step e s)"
proof (cases e)
  case StartClick
  then show ?thesis using assms by (simp add: step_def timer_inv_startSession)
next
  case (AnswerClick opt)
  then show ?thesis using assms by (simp add: step_def timer_inv_handleAnswerClick)
next
  case NextClick
  then show ?thesis using assms by (simp add: step_def timer_inv_nextQuestion)
next
  case (TimerFires h)
  show ?thesis
  proof (cases "timer_fire h s")
    case None
    then show ?thesis using assms by (simp add: TimerFires step_def)
  next
    case (Some out)
    have "timer_inv (s\<lparr>timers := []\<rparr>)" by (simp add: timer_inv_def)
    then have "timer_inv (final_state (nextQuestion True (s\<lparr>timers := []\<rparr>)))"
      by (rule timer_inv_nextQuestion)
    then show ?thesis
      using timer_fire_enabled(3) [OF assms Some] Some by (simp add: TimerFires step_def)
  qed
next
  case (ToggleClick d)
  then show ?thesis
    using assms by (auto simp: step_def toggleDomain_def timer_inv_def split: option.splits)
next
  case (MinInput m)
  then show ?thesis
    using assms by (auto simp: step_def timer_inv_def split: option.splits)
next
  case Destroy
  then show ?thesis
    using assms by (simp add: step_def onDestroy_def timer_inv_def timer_inv_clear)
qed

lemma timer_inv_run: "timer_inv s \<Longrightarrow> timer_inv (run es s)"
  unfolding run_def by (induction es arbitrary: s) (simp_all add: timer_inv_step)

text \<open>Only an answer arms the timer.\<close>

lemma timers_Nil_step:
  assumes "timers s = []" and "\<not> is_answer e"
  shows "timers (step e s) = []"
proof (cases e)
  case StartClick
  then show ?thesis using assms(1) by (simp add: step_def timers_startSession timers_clear_Nil)
next
  case (AnswerClick opt)
  then show ?thesis using assms(2) by simp
next
  case NextClick
  then show ?thesis using assms(1) by (simp add: step_def timers_nextQuestion_Nil)
next
  case (TimerFires h)
  then show ?thesis using assms(1) by (simp add: step_def timer_fire_none)
next
  case (ToggleClick d)
  then show ?thesis using assms(1) by (simp add: step_def toggleDomain_def)
next
  case (MinInput m)
  then show ?thesis using assms(1) by (simp add: step_def)
next
  case Destroy
  then show ?thesis using assms(1) by (simp add: step_def onDestroy_def timers_clear_Nil)
qed

lemma timers_Nil_run:
  assumes "timers s = []" and "list_all (\<lambda>e. \<not> is_answer e) es"
  shows "timers (run es s) = []"
  using assms unfolding run_def
  by (induction es arbitrary: s) (simp_all add: timers_Nil_step)

section \<open>What holds in every state the page can reach\<close>

lemma rng_ok_nextQuestion:
  assumes "rng_ok (rand s)"
  shows "rng_ok (rand (final_state (nextQuestion auto s)))"
  using assms
  by (auto simp: nextQuestion_def Let_def intro: rng_ok_prepareCurrentQuestion)

lemma rng_ok_startSession:
  assumes "rng_ok (rand s)"
  shows "rng_ok (rand (final_state (startSession s)))"
proof -
  consider "allQuestions s = []" | "allQuestions s \<noteq> []" "candidates_of s = []"
    | "allQuestions s \<noteq> []" "candidates_of s \<noteq> []"
    by blast
  then show ?thesis
  proof cases
    case 1
    then show ?thesis using assms by (simp add: startSession_empty_store)
  next
    case 2
    then show ?thesis using assms by (simp add: startSession_no_candidates)
  next
    case 3
    show ?thesis
      unfolding startSession_prepare [OF 3]
      by (rule rng_ok_prepareCurrentQuestion) (simp add: rng_ok_shuffleArray [OF assms])
  qed
qed

lemma queue_ok_nextQuestion:
  assumes "refs_ok s" and "pending_distinct s"
  shows "refs_ok (final_state (nextQuestion auto s))"
    and "pending_distinct (final_state (nextQuestion auto s))"
proof -
  show "refs_ok (final_state (nextQuestion auto s))"
    using assms(1) by (simp add: refs_ok_def)
  have "distinct (drop (Suc (Suc (currentIndex s))) (sessionQuestions s))"
    using assms(2) unfolding pending_distinct_def
    by (metis distinct_drop drop_drop plus_1_eq_Suc)
  then show "pending_distinct (final_state (nextQuestion auto s))"
    using assms(2) by (simp add: pending_distinct_def nextQuestion_position)
qed

lemma queue_ok_startSession:
  assumes "refs_ok s" and "pending_distinct s" and "rng_ok (rand s)"
  shows "refs_ok (final_state (startSession s))"
    and "pending_distinct (final_state (startSession s))"
proof -
  consider "allQuestions s = []" | "allQuestions s \<noteq> []" "candidates_of s = []"
    | "allQuestions s \<noteq> []" "candidates_of s \<noteq> []"
    by blast
  then have "refs_ok (final_state (startSession s))
      \<and> pending_distinct (final_state (startSession s))"
  proof cases
    case 1
    then show ?thesis using assms by (simp add: startSession_empty_store)
  next
    case 2
    then show ?thesis
      using assms by (simp add: startSession_no_candidates refs_ok_def pending_distinct_def)
  next
    case 3
    let ?sh = "fst (shuffleArray (candidates_of s) (rand s))"
    let ?q = "sessionQuestions (final_state (startSession s))"
    obtain k where k: "?q = take k ?sh"
      using startSession_queue_prefix [OF 3] by blast
    have "distinct ?q"
      unfolding k using shuffled_candidates(2) [OF assms(3)] by (rule distinct_take)
    moreover have "list_all (valid_ref (allQuestions s)) ?q"
      unfolding k using shuffled_candidates(3) [OF assms(3)]
      by (auto simp: list_all_iff dest: in_set_takeD)
    ultimately show ?thesis
      by (simp add: refs_ok_def pending_distinct_def)
  qed
  then show "refs_ok (final_state (startSession s))"
    and "pending_distinct (final_state (startSession s))"
    by simp_all
qed

lemma question_shown_wf:
  assumes "question_shown s" and "refs_ok s" and "pending_distinct s"
  shows "active_session s"
proof -
  from assms(1) have "currentIndex s < length (sessionQuestions s)" and "sessionStarted s"
    by (auto simp: question_shown_def array_get_def split: if_splits)
  then show ?thesis using assms(2,3) by (simp add: active_session_def session_wf_def)
qed

lemma page_inv_initial: "initial s \<Longrightarrow> page_inv s"
  by (simp add: initial_def page_inv_def refs_ok_def pending_distinct_def timer_inv_def)

lemma page_inv_step:
  assumes "page_inv s" and "enabled e s"
  shows "page_inv (step e s)"
proof -
  from assms(1) have refs: "refs_ok s" and dist: "pending_distinct s"
    and rnd: "rng_ok (rand s)" and tim: "timer_inv s"
    by (simp_all add: page_inv_def)
  have timer: "timer_inv (step e s)" using tim by (rule timer_inv_step)
  have "refs_ok (step e s) \<and> pending_distinct (step e s) \<and> rng_ok (rand (step e s))"
  proof (cases e)
    case StartClick
    then show ?thesis
      using queue_ok_startSession [OF refs dist rnd] rng_ok_startSession [OF rnd]
      by (simp add: step_def)
  next
    case (AnswerClick opt)
    with assms(2) have "question_shown s" by simp
    then have "active_session s" using refs dist by (rule question_shown_wf)
    then have "session_wf (handleAnswerClick opt s)"
      using session_wf_handleAnswerClick [of s opt] by (simp add: active_session_def)
    then show ?thesis using rnd by (simp add: AnswerClick step_def session_wf_def)
  next
    case NextClick
    then show ?thesis
      using queue_ok_nextQuestion [OF refs dist] rng_ok_nextQuestion [OF rnd]
      by (simp add: step_def)
  next
    case (TimerFires h)
    let ?s = "s\<lparr>timers := clearTimeout h (timers s)\<rparr>"
    have "refs_ok ?s" "pending_distinct ?s" "rng_ok (rand ?s)"
      using refs dist rnd by (simp_all add: refs_ok_def pending_distinct_def)
    then show ?thesis
      using queue_ok_nextQuestion [of ?s True] rng_ok_nextQuestion [of ?s True] refs dist rnd
      by (simp add: TimerFires step_def timer_fire_def)
  next
    case (ToggleClick d)
    then show ?thesis
      using refs dist rnd
      by (simp add: step_def toggleDomain_def refs_ok_def pending_distinct_def)
  next
    case (MinInput m)
    then show ?thesis
      using refs dist rnd by (simp add: step_def refs_ok_def pending_distinct_def)
  next
    case Destroy
    then show ?thesis
      using refs dist rnd by (simp add: step_def onDestroy_def refs_ok_def pending_distinct_def)
  qed
  then show ?thesis using timer by (simp add: page_inv_def)
qed

lemma reachable_page_inv: "reachable s \<Longrightarrow> page_inv s"
  by (induction rule: reachable.induct) (simp_all add: page_inv_initial page_inv_step)

text \<open>
  Whenever the page shows a question, the session is active in the sense of
  \<open>active_session\<close>, and at most one timeout exists.
\<close>

lemma reachable_question_shown:
  assumes "reachable s" and "question_shown s"
  shows "active_session s" and "timer_inv s" and "rng_ok (rand s)"
  using reachable_page_inv [OF assms(1)] question_shown_wf [OF assms(2)]
  by (simp_all add: page_inv_def)

section \<open>The example session, evaluated\<close>

lemma rng_ok_half: "rng_ok rng_half"
  by (simp add: rng_ok_def rng_half_def)

lemma started3_queue: "sessionQuestions started3 = [Ref 0, Ref 2, Ref 1]"
  by code_simp

lemma started3_fields:
  "returned (startSession loaded3)"
  "sessionStarted started3" "currentIndex started3 = 0" "status started3 = Idle"
  "timers started3 = []" "autoAdvanceTimeout started3 = None" "allQuestions started3 = bank3"
  by code_simp+

lemma active_started3: "active_session started3"
  by (simp add: active_session_def session_wf_def refs_ok_def pending_distinct_def started3_fields
      started3_queue bank3_def)

section \<open>The option builder: the correct option and the number of options\<close>

text \<open>
  C9. \<^verbatim>\<open>shuffleArray\<close> is a permutation: whatever the array (of options, of question
  references, of texts) and whatever numbers in \<open>[0, 1)\<close> the random source returns, the
  multiset of the elements of the result is the multiset of the elements of the input.
\<close>

theorem shuffleArray_permutation:
  assumes "rng_ok g"
  shows "mset (fst (shuffleArray a g)) = mset a"
  using assms by (rule mset_shuffleArray)

theorem shuffleArray_permutation_witness:
  "rng_ok rng_half \<and>
   mset (fst (shuffleArray [''A'', ''B'', ''C'', ''D'', ''E''] rng_half))
     = mset [''A'', ''B'', ''C'', ''D'', ''E'']"
  using shuffleArray_permutation [of rng_half "[''A'', ''B'', ''C'', ''D'', ''E'']"]
  by (simp add: rng_ok_def rng_half_def)

text \<open>
  C1. For every question and every store, the list returned by
  \<^verbatim>\<open>buildOptionsForQuestion\<close> has exactly one entry marked correct, and its text is
  the question's correct answer: the entries marked correct, in order, are that one
  option.
\<close>

theorem buildOptions_one_correct:
  assumes "rng_ok g"
  shows "filter correct (fst (buildOptionsForQuestion allQ q g)) =
           [\<lparr>otext = correctAnswer q, correct = True\<rparr>]"
  using assms by (rule buildOptions_correct_entries)

theorem buildOptions_one_correct_witness:
  "rng_ok rng_half \<and>
   filter correct (fst (buildOptionsForQuestion bank3 (bank3 ! 1) rng_half)) =
     [\<lparr>otext = ''Berlin'', correct = True\<rparr>]"
  using buildOptions_one_correct [of rng_half bank3 "bank3 ! 1"]
  by (simp add: rng_ok_def rng_half_def bank3_def)

text \<open>
  C2, as the code has it. When the available distractors of the other questions are
  pairwise different texts, the number of options is
  \<open>max (1 + D) (min 4 (1 + D + P))\<close>, where \<open>D\<close> is the number of distinct dummy
  answers that differ from the correct answer and \<open>P\<close> the number of distinct correct
  answers of other questions that are neither the correct answer nor a dummy answer of
  this question. All dummy answers are kept, so with more than three of them there are
  more than four options; up to three, the number is \<open>min 4 (1 + D + P)\<close>, and it is
  below four when the store is too small. A dummy answer equal to the correct answer
  is not counted in \<open>D\<close>. (Nothing is said here of a store in which two other
  questions share an available answer.)
\<close>

theorem buildOptions_count:
  assumes "distinct (available_distractors allQ q)"
  shows "length (fst (buildOptionsForQuestion allQ q g)) =
           max (1 + card (unique_dummies q))
             (min 4 (1 + card (unique_dummies q) + card (unique_distractors allQ q)))"
proof -
  have "card (unique_distractors allQ q) = length (available_distractors allQ q)"
    unfolding unique_distractors_def using assms by (rule distinct_card)
  then show ?thesis by (simp add: buildOptions_length)
qed

theorem buildOptions_count_witness:
  "distinct (available_distractors bank3 (bank3 ! 1))
   \<and> available_distractors bank3 (bank3 ! 1) = [''Paris'', ''Rome'']
   \<and> card (unique_dummies (bank3 ! 1)) = 0
   \<and> card (unique_distractors bank3 (bank3 ! 1)) = 2
   \<and> length (fst (buildOptionsForQuestion bank3 (bank3 ! 1) rng_half)) = 3"
proof -
  have avail: "available_distractors bank3 (bank3 ! 1) = [''Paris'', ''Rome'']"
    by code_simp
  have dummies: "card (unique_dummies (bank3 ! 1)) = 0"
    by (simp add: unique_dummies_def bank3_def)
  have uniq: "card (unique_distractors bank3 (bank3 ! 1)) = 2"
    unfolding unique_distractors_def avail by simp
  have dist: "distinct (available_distractors bank3 (bank3 ! 1))"
    unfolding avail by simp
  have "length (fst (buildOptionsForQuestion bank3 (bank3 ! 1) rng_half)) = 3"
    unfolding buildOptions_count [OF dist, of rng_half] dummies uniq by simp
  then show ?thesis
    using dist avail dummies uniq by (simp only: simp_thms)
qed

text \<open>
  C2 as stated fails for a question with four dummy answers: the five options are all
  returned, and the stated number is four.
\<close>

theorem buildOptions_count_counterexample:
  "length (fst (buildOptionsForQuestion [q5] q5 rng_half)) = 5 \<and>
   min 4 (1 + card (unique_dummies q5) + card (unique_distractors [q5] q5)) = 4"
proof -
  have "card (unique_dummies q5) = 4"
    by (simp add: unique_dummies_def q5_def)
  moreover have "available_distractors [q5] q5 = []"
    by (simp add: available_distractors_def getGlobalDistractorPool_def q5_def)
  ultimately show ?thesis
    by (simp add: buildOptions_length unique_distractors_def)
qed

text \<open>
  The case left out above: the pool is filtered against the texts seen before the
  top-up only, so when two other questions share an answer the top-up takes it twice.
\<close>

lemma buildOptions_shared_answer:
  "available_distractors bank_shared (bank_shared ! 0) = [''Rome'', ''Rome'']
   \<and> map otext (fst (buildOptionsForQuestion bank_shared (bank_shared ! 0) rng_half))
        = [''Paris'', ''Rome'', ''Rome'']"
  by code_simp

section \<open>Answering: what changes and what does not\<close>

text \<open>
  C10. In every state and for every option, \<^verbatim>\<open>handleAnswerClick\<close> changes nothing but
  the queue, the answer status, the status message, the timer slot and the browser's
  timeout the slot stands for. The position and the displayed options stay; the queue
  stays as it is or gets one entry, the current question's reference, appended at its
  end, and it stays as it is when the option is the correct one. The handler of
  \<^verbatim>\<open>routes/+page.svelte\<close> changes the status and the message only.
\<close>

theorem handleAnswerClick_frame:
  "handleAnswerClick opt s =
     s\<lparr>sessionQuestions := sessionQuestions (handleAnswerClick opt s),
       status := status (handleAnswerClick opt s),
       statusMessage := statusMessage (handleAnswerClick opt s),
       autoAdvanceTimeout := autoAdvanceTimeout (handleAnswerClick opt s),
       timers := timers (handleAnswerClick opt s)\<rparr>
   \<and> currentIndex (handleAnswerClick opt s) = currentIndex s
   \<and> currentOptions (handleAnswerClick opt s) = currentOptions s
   \<and> sessionQuestions (handleAnswerClick opt s) \<in>
        {sessionQuestions s,
         sessionQuestions s @ [array_get (sessionQuestions s) (currentIndex s)]}
   \<and> (if correct opt then sessionQuestions (handleAnswerClick opt s) = sessionQuestions s
       else take (length (sessionQuestions s)) (sessionQuestions (handleAnswerClick opt s))
              = sessionQuestions s)
   \<and> handleAnswerClick_page opt s =
        s\<lparr>status := status (handleAnswerClick_page opt s),
          statusMessage := statusMessage (handleAnswerClick_page opt s)\<rparr>"
  using handleAnswerClick_record [of opt s] handleAnswerClick_page_record [of opt s]
  by (simp add: handleAnswerClick_queue)

theorem handleAnswerClick_frame_witness:
  "currentIndex (handleAnswerClick \<lparr>otext = ''Rome'', correct = False\<rparr> started3) = 0
   \<and> currentOptions (handleAnswerClick \<lparr>otext = ''Rome'', correct = False\<rparr> started3)
       = currentOptions started3
   \<and> sessionQuestions (handleAnswerClick \<lparr>otext = ''Rome'', correct = False\<rparr> started3)
       = [Ref 0, Ref 2, Ref 1, Ref 0]"
proof -
  have "sessionQuestions (handleAnswerClick \<lparr>otext = ''Rome'', correct = False\<rparr> started3)
          = [Ref 0, Ref 2, Ref 1, Ref 0]"
    by (simp add: handleAnswerClick_queue started3_fields started3_queue array_get_def)
  then show ?thesis
    using handleAnswerClick_frame [of "\<lparr>otext = ''Rome'', correct = False\<rparr>" started3]
    by (simp add: started3_fields)
qed

text \<open>
  C3. In an active session (every reachable state that shows a question is one:
  \<open>reachable_question_shown\<close>) with the question not yet answered, an incorrect answer
  appends the current question's reference to the queue exactly when no entry after
  the cursor is that reference, and leaves the queue as it is otherwise. So the queue
  grows by at most one, the reference then occurs exactly once after the cursor, and
  the session stays active. Answering again before the question is shown again changes
  nothing.
\<close>

theorem requeue_on_incorrect:
  assumes "active_session s" and "status s = Idle" and "\<not> correct opt"
  shows
    "(sessionQuestions (handleAnswerClick opt s)
        = sessionQuestions s @ [sessionQuestions s ! currentIndex s])
       = (sessionQuestions s ! currentIndex s
            \<notin> set (drop (Suc (currentIndex s)) (sessionQuestions s)))
     \<and> (sessionQuestions (handleAnswerClick opt s) = sessionQuestions s)
       = (sessionQuestions s ! currentIndex s
            \<in> set (drop (Suc (currentIndex s)) (sessionQuestions s)))
     \<and> length (sessionQuestions (handleAnswerClick opt s)) \<le> Suc (length (sessionQuestions s))
     \<and> count_list
           (drop (Suc (currentIndex (handleAnswerClick opt s)))
              (sessionQuestions (handleAnswerClick opt s)))
           (sessionQuestions s ! currentIndex s) = 1
     \<and> active_session (handleAnswerClick opt s)
     \<and> handleAnswerClick opt' (handleAnswerClick opt s) = handleAnswerClick opt s"
proof -
  let ?q = "sessionQuestions s" and ?i = "currentIndex s"
  let ?s' = "handleAnswerClick opt s"
  from assms(1) have i: "?i < length ?q" and dist: "distinct (drop (Suc ?i) ?q)"
    by (simp_all add: active_session_def session_wf_def pending_distinct_def)
  have cur: "array_get ?q ?i = ?q ! ?i" using i by (rule array_get_nth)
  have queue: "sessionQuestions ?s' =
      (if ?q ! ?i \<notin> set (drop (Suc ?i) ?q) then ?q @ [?q ! ?i] else ?q)"
    using assms(2,3) by (simp add: handleAnswerClick_queue cur)
  have once: "count_list (drop (Suc (currentIndex ?s')) (sessionQuestions ?s')) (?q ! ?i) = 1"
  proof (cases "?q ! ?i \<in> set (drop (Suc ?i) ?q)")
    case True
    then show ?thesis using dist by (simp add: queue count_list_distinct)
  next
    case False
    then show ?thesis using i by (simp add: queue count_list_0_iff)
  qed
  have again: "handleAnswerClick opt' ?s' = ?s'"
    by (rule handleAnswerClick_answered) (simp add: handleAnswerClick_status assms(2,3))
  show ?thesis
    using once again active_session_handleAnswerClick [OF assms(1), of opt]
    by (simp add: queue)
qed

theorem requeue_on_incorrect_witness:
  "active_session started3 \<and> status started3 = Idle
   \<and> \<not> correct \<lparr>otext = ''Rome'', correct = False\<rparr>
   \<and> sessionQuestions (handleAnswerClick \<lparr>otext = ''Rome'', correct = False\<rparr> started3)
       = [Ref 0, Ref 2, Ref 1, Ref 0]
   \<and> count_list
        (drop (Suc (currentIndex (handleAnswerClick \<lparr>otext = ''Rome'', correct = False\<rparr> started3)))
           (sessionQuestions (handleAnswerClick \<lparr>otext = ''Rome'', correct = False\<rparr> started3)))
        (Ref 0) = 1"
proof -
  have active: "active_session started3"
    by (simp add: active_session_def session_wf_def refs_ok_def pending_distinct_def started3_fields
        started3_queue bank3_def)
  have idle: "status started3 = Idle" by (rule started3_fields)
  show ?thesis
    using requeue_on_incorrect [OF active idle, of "\<lparr>otext = ''Rome'', correct = False\<rparr>"]
      active idle
    by (simp add: started3_queue started3_fields)
qed

section \<open>Starting a session\<close>

text \<open>
  The cursor stays inside the queue of an active session under answering, advancing
  (by hand or by the timer) and every other event but a start; a start keeps it so when
  the session length asked for is at least one.
\<close>

lemma position_inv_kept:
  assumes "position_inv s"
  shows "position_inv (handleAnswerClick opt s)
       \<and> position_inv (final_state (nextQuestion auto s))
       \<and> (1 \<le> minQuestions s \<longrightarrow> position_inv (final_state (startSession s)))
       \<and> (e \<noteq> StartClick \<longrightarrow> position_inv (step e s))"
proof -
  have answer: "position_inv (handleAnswerClick opt s)" for opt
    using assms by (auto simp: position_inv_def handleAnswerClick_queue)
  have advance: "position_inv (final_state (nextQuestion auto s))" for auto
    by (rule position_inv_nextQuestion)
  have fire: "position_inv (step (TimerFires h) s)" for h
    using assms
    by (simp add: step_def timer_fire_def position_inv_nextQuestion)
  have "position_inv (step e s)" if "e \<noteq> StartClick"
    using that assms answer advance fire
    by (cases e)
      (simp_all add: step_def, simp_all add: position_inv_def toggleDomain_def onDestroy_def)
  then show ?thesis
    using answer advance position_inv_startSession [OF assms] by blast
qed

text \<open>
  The page with \<open>0\<close> typed into the session-length field, and the state after the
  click on the start button, are states the page reaches.
\<close>

lemma start_zero_length_reachable:
  "reachable loaded3_zero \<and> enabled StartClick loaded3_zero
   \<and> reachable (final_state (startSession loaded3_zero))"
proof -
  have init: "initial loaded3"
    using rng_ok_half by (simp add: initial_def loaded3_def)
  have "enabled (MinInput 0) loaded3"
    by (simp add: render_def loaded3_def)
  with init have "reachable (step (MinInput 0) loaded3)"
    by (intro reachable.event reachable.start)
  then have zero: "reachable loaded3_zero"
    by (simp add: step_def loaded3_zero_def)
  have click: "enabled StartClick loaded3_zero"
    by (simp add: render_def loaded3_zero_def loaded3_def)
  with zero have "reachable (step StartClick loaded3_zero)"
    by (rule reachable.event)
  then show ?thesis using zero click by (simp add: step_def)
qed

text \<open>
  C5. The invariant does not survive every start. With three questions loaded and the
  session length \<open>0\<close>, \<^verbatim>\<open>startSession\<close> finds three candidates, cuts the
  shuffled list to the empty queue, sets the position to \<open>0\<close>, marks the session as
  started and throws a \<^verbatim>\<open>TypeError\<close> while preparing the first question: the
  session is active with the position outside the queue. (The empty list of candidates
  is checked before the cut, not after it.)
\<close>

theorem start_zero_length_throws:
  "minQuestions loaded3_zero = 0
   \<and> candidates_of loaded3_zero = [Ref 0, Ref 1, Ref 2]
   \<and> \<not> returned (startSession loaded3_zero)
   \<and> sessionStarted (final_state (startSession loaded3_zero))
   \<and> currentIndex (final_state (startSession loaded3_zero)) = 0
   \<and> sessionQuestions (final_state (startSession loaded3_zero)) = []
   \<and> \<not> currentIndex (final_state (startSession loaded3_zero))
          < length (sessionQuestions (final_state (startSession loaded3_zero)))"
  by code_simp



text \<open>
  C7, as the code has it. When no question matches the selected domains,
  \<^verbatim>\<open>startSession\<close> returns without throwing and leaves the queue, the position, the
  started flag, the answer status, the status message and the displayed options as
  they were. With a store that is not empty it records the message in \<^verbatim>\<open>error\<close>,
  the variable of a failed load, and the page then shows that message in place of the
  set-up and the question card; with an empty store it returns at once and reports
  nothing.
\<close>

theorem startSession_no_candidates_report:
  assumes "candidates_of s = []"
  shows "returned (startSession s)
       \<and> sessionQuestions (final_state (startSession s)) = sessionQuestions s
       \<and> currentIndex (final_state (startSession s)) = currentIndex s
       \<and> sessionStarted (final_state (startSession s)) = sessionStarted s
       \<and> status (final_state (startSession s)) = status s
       \<and> statusMessage (final_state (startSession s)) = statusMessage s
       \<and> currentOptions (final_state (startSession s)) = currentOptions s
       \<and> error (final_state (startSession s)) =
           (if allQuestions s = [] then error s
            else Some ''No questions found for the selected domains.'')
       \<and> render (final_state (startSession s)) =
           (if allQuestions s = [] then render s
            else if loading s then Spinner
            else ErrorAlert ''No questions found for the selected domains.'')"
proof (cases "allQuestions s = []")
  case True
  then show ?thesis by (simp add: startSession_empty_store)
next
  case False
  then show ?thesis
    by (simp add: startSession_no_candidates [OF False assms] render_def)
qed

theorem startSession_no_candidates_report_witness:
  "candidates_of loaded3_nomatch = []
   \<and> returned (startSession loaded3_nomatch)
   \<and> sessionStarted (final_state (startSession loaded3_nomatch)) = sessionStarted loaded3_nomatch
   \<and> error (final_state (startSession loaded3_nomatch)) =
        Some ''No questions found for the selected domains.''"
proof -
  have cands: "candidates_of loaded3_nomatch = []" by code_simp
  have store: "allQuestions loaded3_nomatch \<noteq> []"
    by (simp add: loaded3_nomatch_def loaded3_def bank3_def)
  show ?thesis
    using startSession_no_candidates_report [OF cands] cands store by simp
qed

text \<open>
  C7 as stated fails in its last part: after the report the page shows the message
  alone, not the page with the domain boxes and the start button; and with an empty
  store nothing is reported.
\<close>

theorem startSession_no_candidates_counterexample:
  "candidates_of loaded3_nomatch = []
   \<and> render loaded3_nomatch = QuizPage
   \<and> render (final_state (startSession loaded3_nomatch)) =
        ErrorAlert ''No questions found for the selected domains.''
   \<and> render (final_state (startSession loaded3_nomatch)) \<noteq> QuizPage
   \<and> candidates_of loaded_empty = []
   \<and> error (final_state (startSession loaded_empty)) = None"
  by code_simp

section \<open>Answering and advancing never fail\<close>

lemma session_wf_run:
  assumes "session_wf s"
    and "list_all (\<lambda>e. is_advance e \<or> is_answer e) es"
  shows "all_return es s"
  using assms
proof (induction es arbitrary: s)
  case Nil
  then show ?case by simp
next
  case (Cons e es)
  from Cons.prems(2) consider "e = NextClick" | h where "e = TimerFires h"
    | opt where "e = AnswerClick opt"
    by (cases e) auto
  then have "returned (step_outcome e s) \<and> session_wf (step e s)"
  proof cases
    case 1
    then show ?thesis
      using session_wf_nextQuestion [OF Cons.prems(1), of False] by (simp add: step_def)
  next
    case 2
    let ?s = "s\<lparr>timers := clearTimeout h (timers s)\<rparr>"
    have "session_wf ?s"
      using Cons.prems(1) by (simp add: session_wf_def refs_ok_def pending_distinct_def)
    then show ?thesis
      using session_wf_nextQuestion [of ?s True] Cons.prems(1)
      by (simp add: 2 step_def timer_fire_def)
  next
    case 3
    then show ?thesis
      using session_wf_handleAnswerClick [OF Cons.prems(1), of opt] by (simp add: step_def)
  qed
  then show ?case using Cons.IH Cons.prems(2) by simp
qed

text \<open>
  C8, as the code has it. \<^verbatim>\<open>handleAnswerClick\<close> does nothing when the question has
  been answered, so a second answer to it changes nothing; \<^verbatim>\<open>nextQuestion\<close> does
  nothing when no session is started, and in a started session every call of it moves
  the cursor on by one, or ends the session at the last entry. A session started with
  candidates and a session length of at least one is active; in an active session
  neither function throws, the session stays active until it ends, and no sequence of
  answers and advances (by hand or by the timer) ever throws.
\<close>

theorem answer_advance_total:
  "(status s \<noteq> Idle \<longrightarrow> handleAnswerClick opt s = s)
   \<and> handleAnswerClick opt' (handleAnswerClick opt s) = handleAnswerClick opt s
   \<and> (\<not> sessionStarted s \<longrightarrow> nextQuestion auto s = Returned s)
   \<and> sessionStarted (final_state (nextQuestion auto s))
       = (sessionStarted s \<and> Suc (currentIndex s) < length (sessionQuestions s))
   \<and> currentIndex (final_state (nextQuestion auto s))
       = (if sessionStarted s \<and> Suc (currentIndex s) < length (sessionQuestions s)
          then Suc (currentIndex s) else currentIndex s)
   \<and> (candidates_of s \<noteq> [] \<and> 1 \<le> minQuestions s \<and> rng_ok (rand s) \<longrightarrow>
        returned (startSession s) \<and> active_session (final_state (startSession s)))
   \<and> (active_session s \<longrightarrow>
        active_session (handleAnswerClick opt s)
        \<and> returned (nextQuestion auto s)
        \<and> (sessionStarted (final_state (nextQuestion auto s)) \<longrightarrow>
             active_session (final_state (nextQuestion auto s)))
        \<and> (list_all (\<lambda>e. is_advance e \<or> is_answer e) es \<longrightarrow>
             all_return es s))"
proof -
  have twice: "handleAnswerClick opt' (handleAnswerClick opt s) = handleAnswerClick opt s"
  proof (cases "status s = Idle")
    case True
    then show ?thesis
      by (intro handleAnswerClick_answered) (simp add: handleAnswerClick_status)
  next
    case False
    then show ?thesis by (simp add: handleAnswerClick_answered)
  qed
  have start: "returned (startSession s) \<and> active_session (final_state (startSession s))"
    if "candidates_of s \<noteq> []" "1 \<le> minQuestions s" "rng_ok (rand s)"
  proof -
    from that(1) have "allQuestions s \<noteq> []"
      by (auto simp: candidates_of_def filter_candidates_def)
    then show ?thesis using active_session_startSession [OF _ that] by simp
  qed
  have guards: "status s \<noteq> Idle \<longrightarrow> handleAnswerClick opt s = s"
    "\<not> sessionStarted s \<longrightarrow> nextQuestion auto s = Returned s"
    by (simp_all add: handleAnswerClick_answered nextQuestion_not_started)
  have active: "active_session s \<longrightarrow>
        active_session (handleAnswerClick opt s)
        \<and> returned (nextQuestion auto s)
        \<and> (sessionStarted (final_state (nextQuestion auto s)) \<longrightarrow>
             active_session (final_state (nextQuestion auto s)))
        \<and> (list_all (\<lambda>e. is_advance e \<or> is_answer e) es \<longrightarrow> all_return es s)"
    using active_session_handleAnswerClick [of s opt]
      active_session_nextQuestion(1,2) [of s auto] session_wf_run [of s es]
    by (simp add: active_session_def)
  show ?thesis
    using twice start guards active nextQuestion_position [of auto s] by blast
qed

theorem answer_advance_total_witness:
  "active_session started3 \<and> status started3 = Idle
   \<and> list_all (\<lambda>e. is_advance e \<or> is_answer e)
        [AnswerClick \<lparr>otext = ''Rome'', correct = False\<rparr>,
         AnswerClick \<lparr>otext = ''Paris'', correct = True\<rparr>, NextClick, TimerFires 1, NextClick,
         NextClick, NextClick]
   \<and> active_session (handleAnswerClick \<lparr>otext = ''Rome'', correct = False\<rparr> started3)
   \<and> handleAnswerClick \<lparr>otext = ''Paris'', correct = True\<rparr>
        (handleAnswerClick \<lparr>otext = ''Rome'', correct = False\<rparr> started3)
       = handleAnswerClick \<lparr>otext = ''Rome'', correct = False\<rparr> started3
   \<and> returned (nextQuestion False started3)
   \<and> currentIndex (final_state (nextQuestion False started3)) = 1
   \<and> all_return
        [AnswerClick \<lparr>otext = ''Rome'', correct = False\<rparr>,
         AnswerClick \<lparr>otext = ''Paris'', correct = True\<rparr>, NextClick, TimerFires 1, NextClick,
         NextClick, NextClick] started3"
  using answer_advance_total
          [of started3 "\<lparr>otext = ''Rome'', correct = False\<rparr>"
              "\<lparr>otext = ''Paris'', correct = True\<rparr>" False
              "[AnswerClick \<lparr>otext = ''Rome'', correct = False\<rparr>,
                AnswerClick \<lparr>otext = ''Paris'', correct = True\<rparr>, NextClick, TimerFires 1,
                NextClick, NextClick, NextClick]"]
    active_started3 started3_fields(2,3,4)
  by (simp add: started3_queue)

text \<open>
  C8 as stated fails: not every repeated or out-of-order call is without effect. In
  the session of three questions a second advance moves the cursor again; and after
  three advances have ended the session, an answer is still recorded: an incorrect one
  appends to the queue, a correct one arms the timeout.
\<close>

theorem answer_advance_counterexample:
  "currentIndex (run [NextClick] started3) = 1
   \<and> currentIndex (run [NextClick, NextClick] started3) = 2
   \<and> \<not> sessionStarted (run [NextClick, NextClick, NextClick] started3)
   \<and> status (run [NextClick, NextClick, NextClick] started3) = Idle
   \<and> sessionQuestions (run [NextClick, NextClick, NextClick] started3)
       = [Ref 0, Ref 2, Ref 1]
   \<and> sessionQuestions
        (run [NextClick, NextClick, NextClick,
              AnswerClick \<lparr>otext = ''Rome'', correct = False\<rparr>] started3)
       = [Ref 0, Ref 2, Ref 1, Ref 1]
   \<and> timers
        (run [NextClick, NextClick, NextClick,
              AnswerClick \<lparr>otext = ''Berlin'', correct = True\<rparr>] started3)
       = [(1, 1000)]"
  by code_simp

section \<open>The auto-advance timer\<close>

text \<open>
  C4. In an active session with at most one timeout (every reachable state that shows
  a question), a correct answer to a question not yet answered arms one
  timeout of one second, whose handle is in \<^verbatim>\<open>autoAdvanceTimeout\<close>. When that
  timeout fires without anything else having happened, the page does exactly what a
  click on the next-question button does: it moves to the next question, or ends the
  session at the last one. After the advance, by hand or by the timer, no timeout is
  active, and none becomes active until the next answer: whatever follows except an
  answer, no timeout can fire, so the position is not advanced a second time by the
  timer. At every moment at most one timeout is active, whatever the events.
  (Time itself is not modelled: the delay is the number recorded with the timeout, and
  the end of the delay is the event of its firing.)
\<close>

theorem auto_advance_once:
  assumes "active_session s" and "status s = Idle" and "timer_inv s" and "correct opt"
  shows "timers (handleAnswerClick opt s) = [(fresh_handle [], 1000)]
       \<and> autoAdvanceTimeout (handleAnswerClick opt s) = Some (fresh_handle [])
       \<and> timer_fire (fresh_handle []) (handleAnswerClick opt s)
           = Some (nextQuestion True ((handleAnswerClick opt s)\<lparr>timers := []\<rparr>))
       \<and> step (TimerFires (fresh_handle [])) (handleAnswerClick opt s)
           = step NextClick (handleAnswerClick opt s)
       \<and> returned (step_outcome (TimerFires (fresh_handle [])) (handleAnswerClick opt s))
       \<and> returned (step_outcome NextClick (handleAnswerClick opt s))
       \<and> sessionStarted (step NextClick (handleAnswerClick opt s))
           = (Suc (currentIndex s) < length (sessionQuestions s))
       \<and> currentIndex (step NextClick (handleAnswerClick opt s))
           = (if Suc (currentIndex s) < length (sessionQuestions s)
              then Suc (currentIndex s) else currentIndex s)
       \<and> (list_all (\<lambda>e. \<not> is_answer e) es \<longrightarrow>
            timers (run es (step NextClick (handleAnswerClick opt s))) = []
            \<and> timer_fire h (run es (step NextClick (handleAnswerClick opt s))) = None)
       \<and> timer_inv (run es' s) \<and> length (timers (run es' s)) \<le> 1"
proof -
  let ?s1 = "handleAnswerClick opt s"
  let ?h = "fresh_handle []"
  have armed: "timers ?s1 = [(?h, 1000)]" "autoAdvanceTimeout ?s1 = Some ?h"
    using assms(3,2,4) by (rule armed_after_correct)+
  have act: "active_session ?s1"
    using assms(1) by (rule active_session_handleAnswerClick)
  then have started: "sessionStarted ?s1" by (simp add: active_session_def)
  have fire: "timer_fire ?h ?s1 = Some (nextQuestion True (?s1\<lparr>timers := []\<rparr>))"
    using armed by (rule timer_fire_is_advance)
  have same: "nextQuestion True (?s1\<lparr>timers := []\<rparr>) = nextQuestion False ?s1"
    using armed started by (rule timer_fire_is_advance)
  have steps: "step (TimerFires ?h) ?s1 = step NextClick ?s1"
    and outcomes: "step_outcome (TimerFires ?h) ?s1 = step_outcome NextClick ?s1"
    by (simp_all add: step_def fire same)
  have ret: "returned (step_outcome NextClick ?s1)"
    using active_session_nextQuestion(1) [OF act] by simp
  have pos: "sessionStarted (step NextClick ?s1)
               = (Suc (currentIndex s) < length (sessionQuestions s))"
    "currentIndex (step NextClick ?s1)
       = (if Suc (currentIndex s) < length (sessionQuestions s)
          then Suc (currentIndex s) else currentIndex s)"
    using assms(4) started
    by (simp_all add: step_def nextQuestion_position handleAnswerClick_queue)
  have none: "timers (step NextClick ?s1) = []"
    using timer_inv_handleAnswerClick [OF assms(3), of opt] started
    by (simp add: step_def timers_nextQuestion_Nil)
  have after: "timers (run es (step NextClick ?s1)) = []
      \<and> timer_fire h (run es (step NextClick ?s1)) = None"
    if "list_all (\<lambda>e. \<not> is_answer e) es"
    using timers_Nil_run [OF none that] by (simp add: timer_fire_none)
  have inv: "timer_inv (run es' s)" using assms(3) by (rule timer_inv_run)
  show ?thesis
    using armed fire steps outcomes ret pos after inv timer_inv_length [OF inv]
    by simp
qed

theorem auto_advance_once_witness:
  "active_session started3 \<and> status started3 = Idle \<and> timer_inv started3
   \<and> correct \<lparr>otext = ''Paris'', correct = True\<rparr>
   \<and> timers (handleAnswerClick \<lparr>otext = ''Paris'', correct = True\<rparr> started3) = [(1, 1000)]
   \<and> currentIndex (step (TimerFires 1)
        (handleAnswerClick \<lparr>otext = ''Paris'', correct = True\<rparr> started3)) = 1
   \<and> timer_fire 1 (run [NextClick]
        (step NextClick (handleAnswerClick \<lparr>otext = ''Paris'', correct = True\<rparr> started3)))
       = None"
proof -
  have inv: "timer_inv started3"
    by (simp add: timer_inv_def started3_fields)
  have idle: "status started3 = Idle" by (rule started3_fields)
  have h: "fresh_handle [] = 1" by (simp add: fresh_handle_def)
  show ?thesis
    using auto_advance_once [OF active_started3 idle inv,
            of "\<lparr>otext = ''Paris'', correct = True\<rparr>" "[NextClick]" 1 "[]"]
      active_started3 idle inv
    by (simp add: h started3_queue started3_fields)
qed

section \<open>Further properties\<close>

text \<open>
  In every state the page can reach from a loaded page through the events its
  template allows, a question that is shown belongs to an active session: the cursor
  is inside the queue, every entry of the queue is a reference to a question of the
  store, no reference is pending twice, and at most one timeout is active.
\<close>

theorem reachable_active:
  assumes "reachable s" and "question_shown s"
  shows "active_session s \<and> position_inv s \<and> timer_inv s \<and> length (timers s) \<le> 1"
proof -
  have act: "active_session s" and tim: "timer_inv s"
    using assms by (rule reachable_question_shown)+
  from act have "position_inv s"
    by (simp add: active_session_def session_wf_def position_inv_def)
  then show ?thesis using act tim timer_inv_length [OF tim] by simp
qed

theorem reachable_active_witness:
  "reachable started3 \<and> question_shown started3
   \<and> active_session started3 \<and> position_inv started3 \<and> timer_inv started3"
proof -
  have init: "initial loaded3"
    using rng_ok_half by (simp add: initial_def loaded3_def)
  have "enabled StartClick loaded3"
    by (simp add: render_def loaded3_def)
  with init have "reachable (step StartClick loaded3)"
    by (intro reachable.event reachable.start)
  then have reach: "reachable started3"
    by (simp add: step_def started3_def)
  have "render started3 = QuizPage"
    by (simp add: render_def started3_def loaded3_def startSession_candidates(6) candidates_of_def
        filter_candidates_def activeDomains_of_def bank3_def domain_or_general_def)
  then have shown: "question_shown started3"
    by (simp add: question_shown_def started3_fields started3_queue array_get_def)
  show ?thesis
    using reachable_active [OF reach shown] reach shown by simp
qed

text \<open>
  Starting with an empty selection of domains is starting with all domains selected.
\<close>

theorem start_empty_selection:
  assumes "selectedDomains s = {}" and "allQuestions s \<noteq> []"
  shows "startSession s = startSession (s\<lparr>selectedDomains := set (domains s)\<rparr>)"
proof (cases "set (domains s) = {}")
  case True
  then have "s\<lparr>selectedDomains := set (domains s)\<rparr> = s"
    using assms(1) by simp
  then show ?thesis by simp
next
  case False
  have clear: "clearAutoAdvanceTimer (s\<lparr>selectedDomains := set (domains s)\<rparr>)
                 = (clearAutoAdvanceTimer s)\<lparr>selectedDomains := set (domains s)\<rparr>"
    by (simp add: clearAutoAdvanceTimer_def split: option.splits)
  show ?thesis
    using assms False
    by (simp add: startSession_def Let_def split_beta clear activeDomains_of_def)
qed

theorem start_empty_selection_witness:
  "selectedDomains (loaded3\<lparr>selectedDomains := {}\<rparr>) = {}
   \<and> allQuestions (loaded3\<lparr>selectedDomains := {}\<rparr>) \<noteq> []
   \<and> startSession (loaded3\<lparr>selectedDomains := {}\<rparr>) = startSession loaded3"
proof -
  have "(loaded3\<lparr>selectedDomains := {}\<rparr>)\<lparr>selectedDomains := set (domains loaded3)\<rparr> = loaded3"
    by (simp add: loaded3_def insert_commute)
  then show ?thesis
    using start_empty_selection [of "loaded3\<lparr>selectedDomains := {}\<rparr>"]
    by (simp add: loaded3_def bank3_def)
qed

text \<open>
  The session of the three questions, played through: the first question is answered
  wrongly and comes back as the fourth entry of the queue; after three advances it is
  shown again, is answered correctly, and the timer ends the session. Four questions
  were shown.
\<close>

theorem requeue_scenario:
  "sessionQuestions (run [AnswerClick \<lparr>otext = ''Rome'', correct = False\<rparr>] started3)
     = [Ref 0, Ref 2, Ref 1, Ref 0]
   \<and> currentIndex (run [AnswerClick \<lparr>otext = ''Rome'', correct = False\<rparr>,
                        NextClick, NextClick, NextClick] started3) = 3
   \<and> sessionStarted (run [AnswerClick \<lparr>otext = ''Rome'', correct = False\<rparr>,
                          NextClick, NextClick, NextClick] started3)
   \<and> timers (run [AnswerClick \<lparr>otext = ''Rome'', correct = False\<rparr>,
                   NextClick, NextClick, NextClick,
                   AnswerClick \<lparr>otext = ''Paris'', correct = True\<rparr>] started3) = [(1, 1000)]
   \<and> \<not> sessionStarted (run [AnswerClick \<lparr>otext = ''Rome'', correct = False\<rparr>,
                            NextClick, NextClick, NextClick,
                            AnswerClick \<lparr>otext = ''Paris'', correct = True\<rparr>,
                            TimerFires 1] started3)
   \<and> all_return [AnswerClick \<lparr>otext = ''Rome'', correct = False\<rparr>,
                  NextClick, NextClick, NextClick,
                  AnswerClick \<lparr>otext = ''Paris'', correct = True\<rparr>,
                  TimerFires 1] started3"
  by code_simp

end
